theory Spec2Isabelle
  imports Main "HOL-Library.Word" "HOL-Library.Multiset"
begin

section \<open>Work-efficient scan and stream compaction (stream\_compaction/efficient.cu)\<close>

text \<open>
  A shallow embedding of \<open>StreamCompaction::Efficient\<close>: the two kernels
  \<open>kernUpsweep\<close> and \<open>kernDownsweep\<close>, and the host functions \<open>scan\<close> and
  \<open>compact\<close> that launch them.

  \<^item> A C \<open>int\<close> cell of a buffer is a 32-bit word (\<open>i32\<close>): \<open>+\<close> wraps, \<open>sint\<close>
    reads the signed value. The kernels' \<open>unsigned\<close> index arithmetic is done on
    32-bit words as well (\<open>u32\<close>), so a product that wraps in the source wraps here.
  \<^item> Host and device arrays are lists. An access outside a buffer is undefined in
    the source; here it is the value \<open>Inl (OutOfRange \<dots>)\<close>, so a result
    \<open>Inr \<dots>\<close> says that every access was inside its buffer.
  \<^item> \<open>cudaMalloc\<close> does not initialise memory: the cells of the \<open>b\<close>-th buffer a
    call allocates start as \<open>junk b 0, junk b 1, \<dots>\<close>, for an arbitrary \<open>junk\<close>.
  \<^item> A kernel launch \<open>kern<<<blocks, blockSize>>>\<close> runs the kernel body once for
    every thread index \<open>blockIdx.x * blockDim.x + threadIdx.x\<close> below
    \<open>blocks * blockSize\<close>, here one thread after the other in ascending order;
    \<open>cudaDeviceSynchronize\<close> is the end of that run. For the two kernels of this file
    any other order gives the same buffer as long as no thread index wraps
    (\<open>launch_kernUpsweep_any_order\<close>, \<open>launch_kernDownsweep_any_order\<close>).
  \<^item> Host-side sizes and loop counters (\<open>smallestPOTGreater\<close>, \<open>neededThreads\<close>,
    \<open>d\<close>) are unbounded numbers; the timer calls are left out.
\<close>

type_synonym i32 = "32 word"
type_synonym u32 = "32 word"

datatype fault = OutOfRange nat nat
  \<comment> \<open>an access of cell (or of a run of cells ending at) \<open>i\<close> in a buffer of \<open>len\<close> cells,
      \<open>len \<le> i\<close>\<close>

definition thenr :: "fault + 'a \<Rightarrow> ('a \<Rightarrow> fault + 'b) \<Rightarrow> fault + 'b" where
  "thenr r k = (case r of Inl e \<Rightarrow> Inl e | Inr v \<Rightarrow> k v)"

definition load :: "'a list \<Rightarrow> nat \<Rightarrow> fault + 'a" where
  "load buf i = (if i < length buf then Inr (buf ! i) else Inl (OutOfRange i (length buf)))"

definition store :: "'a list \<Rightarrow> nat \<Rightarrow> 'a \<Rightarrow> fault + 'a list" where
  "store buf i v = (if i < length buf then Inr (buf[i := v]) else Inl (OutOfRange i (length buf)))"

subsection \<open>The CUDA runtime calls\<close>

definition cudaMalloc :: "(nat \<Rightarrow> i32) \<Rightarrow> nat \<Rightarrow> i32 list" where
  "cudaMalloc junk cells = map junk [0..<cells]"

text \<open>\<open>k * sizeof(int)\<close> for an \<open>int k\<close>: the product is formed in \<open>size_t\<close> (64 bits,
  unsigned), so a negative \<open>k\<close> becomes a huge byte count.\<close>

definition size_bytes :: "int \<Rightarrow> nat" where
  "size_bytes k = unat ((word_of_int k :: 64 word) * 4)"

text \<open>\<open>cudaMemcpy(dst, src, bytes, _)\<close>: the first \<open>bytes div 4\<close> cells of \<open>src\<close> replace
  those of \<open>dst\<close>.\<close>

definition cudaMemcpy :: "i32 list \<Rightarrow> i32 list \<Rightarrow> nat \<Rightarrow> fault + i32 list" where
  "cudaMemcpy dst src bytes =
     (let c = bytes div 4 in
      if length dst < c then Inl (OutOfRange c (length dst))
      else if length src < c then Inl (OutOfRange c (length src))
      else Inr (take c src @ drop c dst))"

text \<open>\<open>cudaMemset(buf + off, 0, bytes)\<close>: \<open>bytes div 4\<close> cells from cell \<open>off\<close> on become 0.
  A negative \<open>off\<close> points in front of the buffer.\<close>

definition cudaMemset0 :: "i32 list \<Rightarrow> int \<Rightarrow> nat \<Rightarrow> fault + i32 list" where
  "cudaMemset0 buf off bytes =
     (let c = bytes div 4 in
      if off < 0 then Inl (OutOfRange 0 (length buf))
      else if length buf < nat off + c then Inl (OutOfRange (nat off + c) (length buf))
      else Inr (take (nat off) buf @ replicate c 0 @ drop (nat off + c) buf))"

subsection \<open>Kernel launches\<close>

definition blockSize :: nat where
  "blockSize = 128"

fun run_threads :: "(nat \<Rightarrow> 'm \<Rightarrow> fault + 'm) \<Rightarrow> nat list \<Rightarrow> 'm \<Rightarrow> fault + 'm" where
  "run_threads kern [] m = Inr m"
| "run_threads kern (t # ts) m =
     (case kern t m of Inl e \<Rightarrow> Inl e | Inr m' \<Rightarrow> run_threads kern ts m')"

definition launch :: "nat \<Rightarrow> (nat \<Rightarrow> 'm \<Rightarrow> fault + 'm) \<Rightarrow> 'm \<Rightarrow> fault + 'm" where
  "launch blocks kern m = run_threads kern [0..<blocks * blockSize] m"

text \<open>\<open>fullBlocksPerGrid = (neededThreads + blockSize - 1) / blockSize\<close>\<close>

definition fullBlocksPerGrid :: "nat \<Rightarrow> nat" where
  "fullBlocksPerGrid neededThreads = (neededThreads + blockSize - 1) div blockSize"

subsection \<open>The kernels\<close>

text \<open>\<open>kernUpsweep(d, n, data)\<close> for the thread with index \<open>tid\<close>. The \<open>int n\<close> is
  converted to \<open>unsigned\<close> for the comparison with \<open>rightIdx\<close>.\<close>

definition kernUpsweep :: "nat \<Rightarrow> int \<Rightarrow> nat \<Rightarrow> i32 list \<Rightarrow> fault + i32 list" where
  "kernUpsweep d n tid data =
     (let index = (of_nat tid :: u32);
          rightPOT = (push_bit (d + 1) 1 :: u32);
          index = index * rightPOT;
          rightIdx = index + rightPOT - 1
      in if rightIdx > word_of_int n then Inr data
         else thenr (load data (unat (index + push_bit d 1 - 1))) (\<lambda>l.
              thenr (load data (unat rightIdx)) (\<lambda>r.
              store data (unat rightIdx) (r + l))))"

text \<open>\<open>kernDownsweep(d, n, data)\<close> for the thread with index \<open>tid\<close>.\<close>

definition kernDownsweep :: "nat \<Rightarrow> int \<Rightarrow> nat \<Rightarrow> i32 list \<Rightarrow> fault + i32 list" where
  "kernDownsweep d n tid data =
     (let index = (of_nat tid :: u32);
          rightPOT = (push_bit (d + 1) 1 :: u32);
          index = index * rightPOT;
          leftIdx = index + push_bit d 1 - 1;
          rightIdx = index + rightPOT - 1
      in if rightIdx > word_of_int n then Inr data
         else thenr (load data (unat leftIdx)) (\<lambda>tmp.
              thenr (load data (unat rightIdx)) (\<lambda>r.
              thenr (store data (unat leftIdx) r) (\<lambda>data.
              thenr (load data (unat rightIdx)) (\<lambda>r.
              store data (unat rightIdx) (r + tmp))))))"

subsection \<open>The helper of common.h\<close>

text \<open>Modelled from the spec: \<open>ilog2ceil\<close> is declared in common.h, which is not among
  the sources. The spec fixes the padded size \<open>1 << ilog2ceil(n)\<close> as the smallest power
  of two that is at least \<open>n\<close>, and at least 1 (also for \<open>n = 0\<close> and \<open>n = 1\<close>);
  so \<open>ilog2ceil n\<close> is the least \<open>k\<close> with \<open>n \<le> 2 ^ k\<close>.\<close>

function ilog2ceil_from :: "nat \<Rightarrow> int \<Rightarrow> nat" where
  "ilog2ceil_from k n = (if n \<le> 2 ^ k then k else ilog2ceil_from (Suc k) n)"
  by pat_completeness auto
termination
proof (relation "measure (\<lambda>(k, n). nat n - 2 ^ k)")
  show "wf (measure (\<lambda>(k, n :: int). nat n - 2 ^ k))"
    by simp
next
  fix k :: nat and n :: int
  assume "\<not> n \<le> 2 ^ k"
  define a :: nat where "a = 2 ^ k"
  from \<open>\<not> n \<le> 2 ^ k\<close> have "int a < n"
    by (simp add: a_def)
  then have "a < nat n"
    by linarith
  moreover have "0 < a"
    by (simp add: a_def)
  ultimately have "nat n - 2 * a < nat n - a"
    by arith
  then show "((Suc k, n), (k, n)) \<in> measure (\<lambda>(k, n). nat n - 2 ^ k)"
    by (simp add: a_def)
qed

definition ilog2ceil :: "int \<Rightarrow> nat" where
  "ilog2ceil n = ilog2ceil_from 0 n"

subsection \<open>scan\<close>

text \<open>The two \<open>for\<close> loops of \<open>scan\<close> (and of \<open>compact\<close>). \<open>lim\<close> is the bound
  \<open>ilog2ceil(smallestPOTGreater)\<close>; the upsweep loop hands \<open>neededThreads\<close> on to the
  downsweep loop. The kernel argument \<open>n\<close> is the logical size in the upsweep and the
  padded size in the downsweep, as at the call sites.\<close>

function upsweep_loop :: "nat \<Rightarrow> nat \<Rightarrow> int \<Rightarrow> nat \<Rightarrow> i32 list \<Rightarrow> fault + (nat \<times> i32 list)" where
  "upsweep_loop lim d n neededThreads dev_data =
     (if d < lim
      then thenr (launch (fullBlocksPerGrid neededThreads) (kernUpsweep d n) dev_data)
             (\<lambda>dev_data. upsweep_loop lim (d + 1) n (neededThreads div 2) dev_data)
      else Inr (neededThreads, dev_data))"
  by pat_completeness auto
termination
  by (relation "measure (\<lambda>(lim, d, n, neededThreads, dev_data). lim - d)") auto

function downsweep_loop :: "int \<Rightarrow> int \<Rightarrow> nat \<Rightarrow> i32 list \<Rightarrow> fault + i32 list" where
  "downsweep_loop d smallestPOTGreater neededThreads dev_data =
     (if d \<ge> 0
      then thenr (launch (fullBlocksPerGrid neededThreads)
                    (kernDownsweep (nat d) smallestPOTGreater) dev_data)
             (\<lambda>dev_data. downsweep_loop (d - 1) smallestPOTGreater (neededThreads * 2) dev_data)
      else Inr dev_data)"
  by pat_completeness auto
termination
  by (relation "measure (\<lambda>(d, smallestPOTGreater, neededThreads, dev_data). nat (d + 1))") auto

text \<open>\<open>scan(n, odata, idata)\<close>. \<open>scan_body\<close> is the function after its first line, for the
  value of \<open>smallestPOTGreater\<close> that this line computes. The result is what the last
  \<open>cudaMemcpy\<close> writes to \<open>odata\<close>: the first \<open>n\<close> cells of the device buffer.\<close>

definition scan_body ::
  "nat \<Rightarrow> (nat \<Rightarrow> nat \<Rightarrow> i32) \<Rightarrow> int \<Rightarrow> i32 list \<Rightarrow> fault + i32 list" where
  "scan_body smallestPOTGreater junk n idata =
     (let dev_data = cudaMalloc (junk 0) smallestPOTGreater
      in thenr (cudaMemcpy dev_data idata (size_bytes n)) (\<lambda>dev_data.
         thenr (cudaMemset0 dev_data n (size_bytes (int smallestPOTGreater - n))) (\<lambda>dev_data.
         thenr (upsweep_loop (ilog2ceil (int smallestPOTGreater)) 0 n smallestPOTGreater dev_data)
           (\<lambda>(neededThreads, dev_data).
         thenr (cudaMemset0 dev_data (int smallestPOTGreater - 1) (size_bytes 1)) (\<lambda>dev_data.
         thenr (downsweep_loop (int (ilog2ceil (int smallestPOTGreater)) - 1)
                  (int smallestPOTGreater) neededThreads dev_data) (\<lambda>dev_data.
         cudaMemcpy (replicate (nat n) 0) dev_data (size_bytes n)))))))"

definition scan :: "(nat \<Rightarrow> nat \<Rightarrow> i32) \<Rightarrow> int \<Rightarrow> i32 list \<Rightarrow> fault + i32 list" where
  "scan junk n idata = scan_body (2 ^ ilog2ceil n) junk n idata"

subsection \<open>The kernels of common.cu\<close>

text \<open>Modelled from the spec: \<open>Common::kernMapToBoolean\<close> is defined in common.cu, which
  is not among the sources. The spec gives the Boolean Mapper as
  \<open>map(n, input) -> mask\<close> with \<open>mask[i] = (input[i] != 0) ? 1 : 0\<close> for the \<open>n\<close> cells it
  is asked for; the thread with index \<open>tid\<close> does cell \<open>tid\<close>.\<close>

definition kernMapToBoolean :: "nat \<Rightarrow> i32 list \<Rightarrow> nat \<Rightarrow> i32 list \<Rightarrow> fault + i32 list" where
  "kernMapToBoolean n idata tid bools =
     (if n \<le> tid then Inr bools
      else thenr (load idata tid) (\<lambda>v. store bools tid (if v \<noteq> 0 then 1 else 0)))"

text \<open>Modelled from the spec: \<open>Common::kernScatter\<close> is defined in common.cu, which is not
  among the sources. The spec gives Scatter as
  \<open>scatter(n, input, mask, index) -> output\<close>: for each \<open>i\<close> with \<open>mask[i] == 1\<close>,
  \<open>output[index[i]] = input[i]\<close>; the thread with index \<open>tid\<close> does cell \<open>tid\<close>. The
  destination is a C \<open>int\<close>: a negative one lies in front of the buffer.\<close>

definition kernScatter ::
  "nat \<Rightarrow> i32 list \<Rightarrow> i32 list \<Rightarrow> i32 list \<Rightarrow> nat \<Rightarrow> i32 list \<Rightarrow> fault + i32 list" where
  "kernScatter n idata bools indices tid odata =
     (if n \<le> tid then Inr odata
      else thenr (load bools tid) (\<lambda>b.
           if b = 1
           then thenr (load indices tid) (\<lambda>k.
                thenr (load idata tid) (\<lambda>v.
                if sint k < 0 then Inl (OutOfRange 0 (length odata))
                else store odata (nat (sint k)) v))
           else Inr odata))"

subsection \<open>compact\<close>

text \<open>\<open>compact(n, odata, idata)\<close> in two parts, each after the first line of the
  function, for the value of \<open>smallestPOTGreater\<close> that this line computes.
  \<open>compact_indices_body\<close> is the function up to the comment
  \<open>END PREFIX SUM CODE FROM SCAN\<close>: the four allocations, the copy of \<open>idata\<close>, the map
  to booleans and the scan of the booleans, written out in the source a second time. It
  yields the device buffers \<open>dev_idata\<close>, \<open>bool_data\<close> and \<open>indices_data\<close> as they are
  at that point.\<close>

definition compact_indices_body ::
  "nat \<Rightarrow> (nat \<Rightarrow> nat \<Rightarrow> i32) \<Rightarrow> int \<Rightarrow> i32 list
     \<Rightarrow> fault + (i32 list \<times> i32 list \<times> i32 list)" where
  "compact_indices_body smallestPOTGreater junk n idata =
     (let dev_idata = cudaMalloc (junk 0) smallestPOTGreater;
          bool_data = cudaMalloc (junk 2) smallestPOTGreater;
          indices_data = cudaMalloc (junk 3) smallestPOTGreater
      in thenr (cudaMemcpy dev_idata idata (size_bytes n)) (\<lambda>dev_idata.
         thenr (launch (fullBlocksPerGrid smallestPOTGreater)
                  (kernMapToBoolean smallestPOTGreater dev_idata) bool_data) (\<lambda>bool_data.
         thenr (cudaMemcpy indices_data bool_data (size_bytes (int smallestPOTGreater)))
           (\<lambda>indices_data.
         thenr (cudaMemset0 indices_data n (size_bytes (int smallestPOTGreater - n)))
           (\<lambda>indices_data.
         thenr (upsweep_loop (ilog2ceil (int smallestPOTGreater)) 0 n smallestPOTGreater
                  indices_data) (\<lambda>(neededThreads, indices_data).
         thenr (cudaMemset0 indices_data (int smallestPOTGreater - 1) (size_bytes 1))
           (\<lambda>indices_data.
         thenr (downsweep_loop (int (ilog2ceil (int smallestPOTGreater)) - 1)
                  (int smallestPOTGreater) neededThreads indices_data) (\<lambda>indices_data.
         Inr (dev_idata, bool_data, indices_data)))))))))"

text \<open>The rest of \<open>compact\<close>: the scatter into \<open>dev_odata\<close> (the second buffer the
  function allocates), the copy of its first \<open>n\<close> cells to \<open>odata\<close>, and the returned
  \<open>size\<close>, which the source copies from \<open>indices_data[smallestPOTGreater - 1]\<close>. The
  result is the pair of what is written to \<open>odata\<close> and \<open>size\<close>.\<close>

definition compact_body ::
  "nat \<Rightarrow> (nat \<Rightarrow> nat \<Rightarrow> i32) \<Rightarrow> int \<Rightarrow> i32 list \<Rightarrow> fault + (i32 list \<times> i32)" where
  "compact_body smallestPOTGreater junk n idata =
     (let dev_odata = cudaMalloc (junk 1) smallestPOTGreater
      in thenr (compact_indices_body smallestPOTGreater junk n idata)
           (\<lambda>(dev_idata, bool_data, indices_data).
         thenr (launch (fullBlocksPerGrid smallestPOTGreater)
                  (kernScatter smallestPOTGreater dev_idata bool_data indices_data) dev_odata)
           (\<lambda>dev_odata.
         thenr (cudaMemcpy (replicate (nat n) 0) dev_odata (size_bytes n)) (\<lambda>odata.
         thenr (load indices_data (smallestPOTGreater - 1)) (\<lambda>size.
         Inr (odata, size))))))"

text \<open>The two with the first line of \<open>compact\<close>.\<close>

definition compact_indices ::
  "(nat \<Rightarrow> nat \<Rightarrow> i32) \<Rightarrow> int \<Rightarrow> i32 list \<Rightarrow> fault + (i32 list \<times> i32 list \<times> i32 list)" where
  "compact_indices junk n idata = compact_indices_body (2 ^ ilog2ceil n) junk n idata"

definition compact :: "(nat \<Rightarrow> nat \<Rightarrow> i32) \<Rightarrow> int \<Rightarrow> i32 list \<Rightarrow> fault + (i32 list \<times> i32)" where
  "compact junk n idata = compact_body (2 ^ ilog2ceil n) junk n idata"

section \<open>Vocabulary of the proofs\<close>

text \<open>What follows is not part of the program: the cells a thread of level \<open>d\<close> touches,
  the effect of one whole level on the buffer, and the sums the cells hold.\<close>

declare power_Suc [simp del]

definition rightIdx :: "nat \<Rightarrow> nat \<Rightarrow> nat" where
  "rightIdx d tid = Suc tid * 2 ^ Suc d - 1"

definition leftIdx :: "nat \<Rightarrow> nat \<Rightarrow> nat" where
  "leftIdx d tid = tid * 2 ^ Suc d + 2 ^ d - 1"

definition up_level :: "nat \<Rightarrow> nat \<Rightarrow> 'a::plus list \<Rightarrow> 'a list" where
  "up_level d n xs =
     map (\<lambda>j. if 2 ^ Suc d dvd Suc j \<and> j \<le> n then xs ! j + xs ! (j - 2 ^ d) else xs ! j)
       [0..<length xs]"

definition down_level :: "nat \<Rightarrow> 'a::plus list \<Rightarrow> 'a list" where
  "down_level d xs =
     map (\<lambda>j. if 2 ^ Suc d dvd Suc j then xs ! j + xs ! (j - 2 ^ d)
              else if 2 ^ d dvd Suc j then xs ! (j + 2 ^ d) else xs ! j)
       [0..<length xs]"

definition up_part :: "nat \<Rightarrow> nat \<Rightarrow> nat \<Rightarrow> 'a::plus list \<Rightarrow> 'a list" where
  "up_part d n m xs =
     map (\<lambda>j. if j < m * 2 ^ Suc d then up_level d n xs ! j else xs ! j) [0..<length xs]"

definition down_part :: "nat \<Rightarrow> nat \<Rightarrow> 'a::plus list \<Rightarrow> 'a list" where
  "down_part d m xs =
     map (\<lambda>j. if j < m * 2 ^ Suc d then down_level d xs ! j else xs ! j) [0..<length xs]"

definition seg :: "'a::comm_monoid_add list \<Rightarrow> nat \<Rightarrow> nat \<Rightarrow> 'a" where
  "seg xs a b = (\<Sum>i = a..<b. xs ! i)"

definition up_sweep :: "nat \<Rightarrow> nat \<Rightarrow> 'a::plus list \<Rightarrow> 'a list" where
  "up_sweep k n xs = fold (\<lambda>e. up_level e n) [0..<k] xs"

function cut_at :: "nat \<Rightarrow> nat \<Rightarrow> nat \<Rightarrow> nat" where
  "cut_at n d b = (if b \<le> Suc n then b else cut_at n (Suc d) (b div 2 ^ Suc d * 2 ^ Suc d))"
  by pat_completeness auto
termination
proof (relation "measure (\<lambda>(n, d, b). if b = 0 then 0 else Suc (b - d))")
  show "wf (measure (\<lambda>(n :: nat, d, b). if b = 0 then 0 else Suc (b - d)))"
    by simp
next
  fix n d b :: nat
  assume "\<not> b \<le> Suc n"
  then have b: "b \<noteq> 0" by simp
  define c where "c = b div 2 ^ Suc d * 2 ^ Suc d"
  have cb: "c \<le> b" by (simp add: c_def)
  have "(if c = 0 then 0 else Suc (c - Suc d)) < Suc (b - d)"
  proof (cases "c = 0")
    case True
    then show ?thesis by simp
  next
    case False
    then have "b div 2 ^ Suc d \<noteq> 0" by (auto simp add: c_def)
    then have "1 * 2 ^ Suc d \<le> c" unfolding c_def by (intro mult_le_mono1) simp
    moreover have "Suc d < 2 ^ Suc d" by (rule less_exp)
    ultimately have "Suc d < c" by linarith
    with cb False show ?thesis by simp
  qed
  then have "(if b div 2 ^ Suc d * 2 ^ Suc d = 0 then 0
              else Suc (b div 2 ^ Suc d * 2 ^ Suc d - Suc d)) < Suc (b - d)"
    unfolding c_def .
  with b show "((n, Suc d, b div 2 ^ Suc d * 2 ^ Suc d), (n, d, b))
          \<in> measure (\<lambda>(n, d, b). if b = 0 then 0 else Suc (b - d))"
    by (simp only: in_measure prod.case if_False)
qed

definition down_sweep :: "nat \<Rightarrow> nat \<Rightarrow> 'a::plus list \<Rightarrow> 'a list" where
  "down_sweep d L ys = fold down_level (rev [d..<L]) ys"

definition padded :: "nat \<Rightarrow> 'a::zero list \<Rightarrow> 'a list" where
  "padded P xs = xs @ replicate (P - length xs) 0"

definition sweeps :: "nat \<Rightarrow> nat \<Rightarrow> 'a::comm_monoid_add list \<Rightarrow> 'a list" where
  "sweeps L n xs = down_sweep 0 L ((up_sweep L n xs)[2 ^ L - Suc 0 := 0])"

definition prefix_sums :: "'a::comm_monoid_add list \<Rightarrow> 'a list" where
  "prefix_sums xs = map (\<lambda>i. sum_list (take i xs)) [0..<length xs]"

definition to_bool :: "i32 \<Rightarrow> i32" where
  "to_bool v = (if v \<noteq> 0 then 1 else 0)"

definition kept_before :: "i32 list \<Rightarrow> nat \<Rightarrow> nat" where
  "kept_before xs c = length (filter (\<lambda>v. v \<noteq> 0) (take c xs))"

text \<open>The scatter destination that \<open>indices_data\<close> holds for cell \<open>t\<close>.\<close>

definition dest :: "i32 list \<Rightarrow> nat \<Rightarrow> nat" where
  "dest xs t = kept_before xs (cut_at (length xs) 0 t)"

definition scatter_upto :: "i32 list \<Rightarrow> (nat \<Rightarrow> nat) \<Rightarrow> nat \<Rightarrow> i32 list \<Rightarrow> i32 list" where
  "scatter_upto idata dst m odata =
     fold (\<lambda>t odata. if idata ! t \<noteq> 0 then odata[dst t := idata ! t] else odata) [0..<m] odata"

text \<open>\<open>dev_idata\<close> after the copy of \<open>idata\<close>: the cells from \<open>n\<close> on are uninitialised.\<close>

definition dev_input :: "(nat \<Rightarrow> nat \<Rightarrow> i32) \<Rightarrow> nat \<Rightarrow> i32 list \<Rightarrow> i32 list" where
  "dev_input junk P xs = xs @ drop (length xs) (cudaMalloc (junk 0) P)"

text \<open>\<open>dev_odata\<close> after the scatter.\<close>

definition dev_output :: "(nat \<Rightarrow> nat \<Rightarrow> i32) \<Rightarrow> nat \<Rightarrow> i32 list \<Rightarrow> i32 list" where
  "dev_output junk P xs =
     scatter_upto (dev_input junk P xs) (dest xs) P (cudaMalloc (junk 1) P)"

text \<open>Fresh device memory in which every cell holds \<open>v\<close>.\<close>

definition filled :: "i32 \<Rightarrow> nat \<Rightarrow> nat \<Rightarrow> i32" where
  "filled v b i = v"

text \<open>What the thread of node \<open>m\<close> does to the buffer at level \<open>d\<close>, in the upsweep and
  in the downsweep.\<close>

definition up_node :: "nat \<Rightarrow> nat \<Rightarrow> nat \<Rightarrow> 'a::plus list \<Rightarrow> 'a list" where
  "up_node d n m xs =
     (if n < rightIdx d m then xs
      else xs[rightIdx d m := xs ! rightIdx d m + xs ! leftIdx d m])"

definition down_node :: "nat \<Rightarrow> nat \<Rightarrow> 'a::plus list \<Rightarrow> 'a list" where
  "down_node d m xs =
     (if length xs < rightIdx d m then xs
      else xs[leftIdx d m := xs ! rightIdx d m,
              rightIdx d m := xs ! rightIdx d m + xs ! leftIdx d m])"

section \<open>From the kernels to whole levels\<close>

lemma aligned_unique:
  fixes K :: nat
  assumes "K dvd Suc j" "m * K \<le> j" "j < Suc m * K"
  shows "Suc j = Suc m * K"
proof -
  from assms(1) obtain q where q: "Suc j = K * q" by (auto elim: dvdE)
  have K: "0 < K" using q by (cases K) auto
  have "K * m \<le> j" using assms(2) by (simp only: mult.commute)
  with q have "K * m < K * q" by linarith
  then have "m < q" by simp
  have "j < K * Suc m" using assms(3) by (simp only: mult.commute)
  with q have "K * q \<le> K * Suc m" by linarith
  then have "q \<le> Suc m" using K mult_le_cancel1 by blast
  with \<open>m < q\<close> have "q = Suc m" by simp
  with q show ?thesis by (simp only: mult.commute)
qed

lemma half_aligned_unique:
  fixes H :: nat
  assumes "H dvd Suc j" "\<not> 2 * H dvd Suc j" "m * (2 * H) \<le> j" "j < Suc m * (2 * H)"
  shows "Suc j = m * (2 * H) + H"
proof -
  from assms(1) obtain q where q: "Suc j = H * q" by (auto elim: dvdE)
  have H: "0 < H" using q by (cases H) auto
  have "odd q"
  proof
    assume "even q"
    then obtain r where "q = 2 * r" by (auto elim: evenE)
    with q have "Suc j = 2 * H * r" by simp
    then have "2 * H dvd Suc j" by (metis dvd_triv_left)
    with assms(2) show False by simp
  qed
  have "H * (2 * m) \<le> j" using assms(3) by (simp only: mult_ac)
  with q have "H * (2 * m) < H * q" by linarith
  then have lo: "2 * m < q" by simp
  have "Suc m * (2 * H) = H * (2 * m + 2)" by (simp add: algebra_simps)
  with assms(4) have "j < H * (2 * m + 2)" by (simp only:)
  with q have "H * q \<le> H * (2 * m + 2)" by linarith
  then have "q \<le> 2 * m + 2" using H mult_le_cancel1 by blast
  with lo \<open>odd q\<close> have "q = 2 * m + 1"
    by presburger
  with q show ?thesis by (simp add: algebra_simps)
qed

lemma aligned_not_last:
  fixes K :: nat
  assumes "2 \<le> K" "K dvd P" "K dvd Suc r" "r \<le> P"
  shows "r < P"
proof (rule ccontr)
  assume "\<not> r < P"
  with assms(4) have "r = P" by simp
  with assms(2,3) have "K dvd Suc P - P" by (intro dvd_diff_nat) simp_all
  then have "K dvd 1" by simp
  with assms(1) show False by simp
qed

lemma ilog2ceil_from_ge: "k \<le> ilog2ceil_from k n"
proof (induction k n rule: ilog2ceil_from.induct)
  case (1 k n)
  show ?case
  proof (cases "n \<le> 2 ^ k")
    case True
    then show ?thesis by simp
  next
    case False
    with 1 have "Suc k \<le> ilog2ceil_from (Suc k) n" by simp
    with False show ?thesis by simp
  qed
qed

lemma ilog2ceil_from_bound: "n \<le> 2 ^ ilog2ceil_from k n"
proof (induction k n rule: ilog2ceil_from.induct)
  case (1 k n)
  then show ?case by (cases "n \<le> 2 ^ k") simp_all
qed

lemma ilog2ceil_from_least: "k \<le> j \<Longrightarrow> n \<le> 2 ^ j \<Longrightarrow> ilog2ceil_from k n \<le> j"
proof (induction k n rule: ilog2ceil_from.induct)
  case (1 k n)
  show ?case
  proof (cases "n \<le> 2 ^ k")
    case True
    with 1 show ?thesis by simp
  next
    case False
    with 1 have "k \<noteq> j" by auto
    with 1 have "Suc k \<le> j" by simp
    with 1 False show ?thesis by simp
  qed
qed

declare ilog2ceil_from.simps [simp del]

lemma ilog2ceil_bound: "n \<le> 2 ^ ilog2ceil n"
  by (simp add: ilog2ceil_def ilog2ceil_from_bound)

lemma ilog2ceil_least: "n \<le> 2 ^ j \<Longrightarrow> ilog2ceil n \<le> j"
  by (simp add: ilog2ceil_def ilog2ceil_from_least)

lemma ilog2ceil_power: "ilog2ceil (2 ^ k) = k"
proof (rule antisym)
  show "ilog2ceil (2 ^ k) \<le> k" by (rule ilog2ceil_least) simp
  have "(2::int) ^ k \<le> 2 ^ ilog2ceil (2 ^ k)" by (rule ilog2ceil_bound)
  then show "k \<le> ilog2ceil (2 ^ k)" by simp
qed

lemma ilog2ceil_int_power: "ilog2ceil (int (2 ^ k)) = k"
  using ilog2ceil_power [of k] by simp

lemma ilog2ceil_le1: "n \<le> 1 \<Longrightarrow> ilog2ceil n = 0"
  using ilog2ceil_least [of n 0] by simp

lemma unat_of_nat32: "k < 2 ^ 32 \<Longrightarrow> unat (of_nat k :: u32) = k"
  by (simp add: unat_of_nat)

lemma one_le_node: "1 \<le> Suc m * (2::nat) ^ k"
proof -
  have "1 * 1 \<le> Suc m * (2::nat) ^ k" by (intro mult_le_mono) simp_all
  then show ?thesis by (simp only: mult_1)
qed

lemma Suc_rightIdx: "Suc (rightIdx d m) = Suc m * 2 ^ Suc d"
  using one_le_node [of m "Suc d"] by (simp add: rightIdx_def)

lemma Suc_leftIdx: "Suc (leftIdx d m) = m * 2 ^ Suc d + 2 ^ d"
proof -
  have "1 \<le> m * 2 ^ Suc d + (2::nat) ^ d" by (simp add: Suc_leI)
  then show ?thesis by (simp add: leftIdx_def)
qed

lemma leftIdx_plus: "leftIdx d m + 2 ^ d = rightIdx d m"
proof -
  have "Suc (leftIdx d m) + 2 ^ d = Suc (rightIdx d m)"
    by (simp add: Suc_leftIdx Suc_rightIdx power_Suc)
  then show ?thesis by simp
qed

lemma rightIdx_minus: "rightIdx d m - 2 ^ d = leftIdx d m"
  using leftIdx_plus [of d m] by simp

lemma leftIdx_less: "leftIdx d m < rightIdx d m"
proof -
  have "0 < (2::nat) ^ d" by simp
  with leftIdx_plus [of d m] show ?thesis by linarith
qed

lemma leftIdx_ge: "m * 2 ^ Suc d \<le> leftIdx d m"
proof -
  have "0 < (2::nat) ^ d" by simp
  with Suc_leftIdx [of d m] show ?thesis by linarith
qed

lemma rightIdx_lt: "rightIdx d m < Suc m * 2 ^ Suc d"
  using Suc_rightIdx [of d m] by linarith

lemma word_right_index:
  "(of_nat tid :: u32) * push_bit (d + 1) 1 + push_bit (d + 1) 1 - 1 = of_nat (rightIdx d tid)"
proof -
  have "(of_nat (Suc tid * 2 ^ Suc d - 1) :: u32) = of_nat (Suc tid * 2 ^ Suc d) - 1"
    using one_le_node [of tid "Suc d"] by (simp only: of_nat_diff of_nat_1)
  then show ?thesis
    by (simp add: rightIdx_def push_bit_eq_mult algebra_simps)
qed

lemma word_left_index:
  "(of_nat tid :: u32) * push_bit (d + 1) 1 + push_bit d 1 - 1 = of_nat (leftIdx d tid)"
proof -
  have "1 \<le> tid * 2 ^ Suc d + (2::nat) ^ d" by (simp add: Suc_leI)
  then have "(of_nat (tid * 2 ^ Suc d + 2 ^ d - 1) :: u32) = of_nat (tid * 2 ^ Suc d + 2 ^ d) - 1"
    by (simp only: of_nat_diff of_nat_1)
  then show ?thesis
    by (simp add: leftIdx_def push_bit_eq_mult algebra_simps)
qed

lemma kernel_indices:
  assumes "Suc tid * 2 ^ Suc d \<le> 2 ^ 32" and "n < 2 ^ 32"
  shows "unat (of_nat (rightIdx d tid) :: u32) = rightIdx d tid"
    and "unat (of_nat (leftIdx d tid) :: u32) = leftIdx d tid"
    and "(word_of_int (int n) :: u32) < of_nat (rightIdx d tid) \<longleftrightarrow> n < rightIdx d tid"
proof -
  have "rightIdx d tid < 2 ^ 32"
    using rightIdx_lt [of d tid] assms(1) by simp
  then show r: "unat (of_nat (rightIdx d tid) :: u32) = rightIdx d tid"
    by (rule unat_of_nat32)
  have "leftIdx d tid < 2 ^ 32"
    using leftIdx_less [of d tid] \<open>rightIdx d tid < 2 ^ 32\<close> by simp
  then show "unat (of_nat (leftIdx d tid) :: u32) = leftIdx d tid"
    by (rule unat_of_nat32)
  have n: "unat (word_of_int (int n) :: u32) = n"
    using assms(2) by (simp add: unat_of_nat)
  show "(word_of_int (int n) :: u32) < of_nat (rightIdx d tid) \<longleftrightarrow> n < rightIdx d tid"
    by (simp only: word_less_nat_alt r n)
qed

lemma kernUpsweep_nat:
  assumes "Suc tid * 2 ^ Suc d \<le> 2 ^ 32" and "n < 2 ^ 32"
  shows "kernUpsweep d (int n) tid data =
     (if n < rightIdx d tid then Inr data
      else thenr (load data (leftIdx d tid)) (\<lambda>l.
           thenr (load data (rightIdx d tid)) (\<lambda>r.
           store data (rightIdx d tid) (r + l))))"
  unfolding kernUpsweep_def Let_def word_right_index word_left_index
  by (simp only: kernel_indices [OF assms])

lemma kernDownsweep_nat:
  assumes "Suc tid * 2 ^ Suc d \<le> 2 ^ 32" and "n < 2 ^ 32"
  shows "kernDownsweep d (int n) tid data =
     (if n < rightIdx d tid then Inr data
      else thenr (load data (leftIdx d tid)) (\<lambda>tmp.
           thenr (load data (rightIdx d tid)) (\<lambda>r.
           thenr (store data (leftIdx d tid) r) (\<lambda>data.
           thenr (load data (rightIdx d tid)) (\<lambda>r.
           store data (rightIdx d tid) (r + tmp))))))"
  unfolding kernDownsweep_def Let_def word_right_index word_left_index
  by (simp only: kernel_indices [OF assms])

lemma run_threads_append:
  "run_threads kern (ts @ us) m = thenr (run_threads kern ts m) (run_threads kern us)"
  by (induction ts arbitrary: m) (simp_all add: thenr_def split: sum.splits)

lemma run_threads_snoc:
  "run_threads kern [0..<m] x = Inr y \<Longrightarrow> run_threads kern [0..<Suc m] x = kern m y"
  by (simp add: run_threads_append thenr_def split: sum.splits)

lemma length_up_level [simp]: "length (up_level d n xs) = length xs"
  by (simp add: up_level_def)

lemma length_down_level [simp]: "length (down_level d xs) = length xs"
  by (simp add: down_level_def)

lemma length_up_part [simp]: "length (up_part d n m xs) = length xs"
  by (simp add: up_part_def)

lemma length_down_part [simp]: "length (down_part d m xs) = length xs"
  by (simp add: down_part_def)

lemma up_level_nth:
  "j < length xs \<Longrightarrow> up_level d n xs ! j =
     (if 2 ^ Suc d dvd Suc j \<and> j \<le> n then xs ! j + xs ! (j - 2 ^ d) else xs ! j)"
  by (simp add: up_level_def)

lemma down_level_nth:
  "j < length xs \<Longrightarrow> down_level d xs ! j =
     (if 2 ^ Suc d dvd Suc j then xs ! j + xs ! (j - 2 ^ d)
      else if 2 ^ d dvd Suc j then xs ! (j + 2 ^ d) else xs ! j)"
  by (simp add: down_level_def)

lemma up_part_nth:
  "j < length xs \<Longrightarrow> up_part d n m xs ! j =
     (if j < m * 2 ^ Suc d then up_level d n xs ! j else xs ! j)"
  by (simp add: up_part_def)

lemma down_part_nth:
  "j < length xs \<Longrightarrow> down_part d m xs ! j =
     (if j < m * 2 ^ Suc d then down_level d xs ! j else xs ! j)"
  by (simp add: down_part_def)

lemma up_part_0: "up_part d n 0 xs = xs"
  by (simp add: up_part_def map_nth)

lemma down_part_0: "down_part d 0 xs = xs"
  by (simp add: down_part_def map_nth)

lemma up_part_all: "length xs \<le> m * 2 ^ Suc d \<Longrightarrow> up_part d n m xs = up_level d n xs"
  by (rule nth_equalityI) (simp_all add: up_part_nth)

lemma down_part_all: "length xs \<le> m * 2 ^ Suc d \<Longrightarrow> down_part d m xs = down_level d xs"
  by (rule nth_equalityI) (simp_all add: down_part_nth)

text \<open>Facts about the two cells of node \<open>m\<close> at level \<open>d\<close>.\<close>

lemma rightIdx_aligned: "2 ^ Suc d dvd Suc (rightIdx d m)"
  by (simp add: Suc_rightIdx)

lemma leftIdx_half_aligned: "2 ^ d dvd Suc (leftIdx d m)"
  by (simp add: Suc_leftIdx power_Suc)

lemma leftIdx_not_aligned: "\<not> 2 ^ Suc d dvd Suc (leftIdx d m)"
proof
  assume "2 ^ Suc d dvd Suc (leftIdx d m)"
  then have "2 ^ Suc d dvd m * 2 ^ Suc d + (2::nat) ^ d"
    by (simp only: Suc_leftIdx)
  then have "(2::nat) ^ Suc d dvd 2 ^ d"
    by (simp add: dvd_add_right_iff)
  then have "(2::nat) ^ Suc d \<le> 2 ^ d"
    by (rule dvd_imp_le) simp
  then show False by simp
qed

lemma rightIdx_unique:
  assumes "2 ^ Suc d dvd Suc j" "m * 2 ^ Suc d \<le> j" "j < Suc m * 2 ^ Suc d"
  shows "j = rightIdx d m"
  using aligned_unique [OF assms] Suc_rightIdx [of d m] by simp

lemma leftIdx_unique:
  assumes "2 ^ d dvd Suc j" "\<not> 2 ^ Suc d dvd Suc j" "m * 2 ^ Suc d \<le> j" "j < Suc m * 2 ^ Suc d"
  shows "j = leftIdx d m"
  using half_aligned_unique [of "2 ^ d" j m] assms Suc_leftIdx [of d m]
  by (simp add: power_Suc)

lemma rightIdx_in_buffer:
  assumes "2 ^ Suc d dvd P" "rightIdx d m \<le> P"
  shows "rightIdx d m < P"
proof -
  have "2 \<le> (2::nat) ^ Suc d" by (simp add: power_Suc)
  then show ?thesis
    using assms(1) rightIdx_aligned assms(2) by (rule aligned_not_last)
qed

lemma up_thread:
  assumes wrap: "Suc m * 2 ^ Suc d \<le> 2 ^ 32" and n32: "n < 2 ^ 32"
    and dvd: "2 ^ Suc d dvd length xs" and n: "n \<le> length xs"
  shows "kernUpsweep d (int n) m (up_part d n m xs) = Inr (up_part d n (Suc m) xs)"
proof (cases "n < rightIdx d m")
  case True
  have "up_part d n m xs = up_part d n (Suc m) xs"
  proof (rule nth_equalityI)
    fix j assume "j < length (up_part d n m xs)"
    then have j: "j < length xs" by simp
    show "up_part d n m xs ! j = up_part d n (Suc m) xs ! j"
    proof (cases "m * 2 ^ Suc d \<le> j \<and> j < Suc m * 2 ^ Suc d")
      case False
      with j show ?thesis by (auto simp add: up_part_nth)
    next
      case inside: True
      have "\<not> (2 ^ Suc d dvd Suc j \<and> j \<le> n)"
        using rightIdx_unique [of d j m] inside True by auto
      then have "up_level d n xs ! j = xs ! j"
        using j by (auto simp add: up_level_nth)
      with j show ?thesis
        by (simp add: up_part_nth)
    qed
  qed simp
  with True show ?thesis
    by (simp add: kernUpsweep_nat [OF wrap n32])
next
  case False
  then have rn: "rightIdx d m \<le> n" by simp
  with n have "rightIdx d m \<le> length xs" by simp
  with dvd have r: "rightIdx d m < length xs" by (rule rightIdx_in_buffer)
  with leftIdx_less [of d m] have l: "leftIdx d m < length xs" by simp
  have lv: "up_part d n m xs ! leftIdx d m = xs ! leftIdx d m"
    using l leftIdx_ge [of m d] by (simp add: up_part_nth)
  have "m * 2 ^ Suc d \<le> rightIdx d m"
    using leftIdx_ge [of m d] leftIdx_less [of d m] by simp
  then have rv: "up_part d n m xs ! rightIdx d m = xs ! rightIdx d m"
    using r by (simp add: up_part_nth)
  have "(up_part d n m xs)[rightIdx d m := xs ! rightIdx d m + xs ! leftIdx d m]
          = up_part d n (Suc m) xs"
  proof (rule nth_equalityI)
    fix j assume "j < length ((up_part d n m xs)[rightIdx d m := xs ! rightIdx d m + xs ! leftIdx d m])"
    then have j: "j < length xs" by simp
    show "(up_part d n m xs)[rightIdx d m := xs ! rightIdx d m + xs ! leftIdx d m] ! j
            = up_part d n (Suc m) xs ! j"
    proof (cases "j = rightIdx d m")
      case True
      with r rn rightIdx_lt [of d m] show ?thesis
        by (simp add: up_part_nth up_level_nth rightIdx_aligned rightIdx_minus)
    next
      case ne: False
      show ?thesis
      proof (cases "m * 2 ^ Suc d \<le> j \<and> j < Suc m * 2 ^ Suc d")
        case False
        with j ne show ?thesis by (auto simp add: up_part_nth)
      next
        case inside: True
        have "\<not> 2 ^ Suc d dvd Suc j"
          using rightIdx_unique [of d j m] inside ne by auto
        then have "up_level d n xs ! j = xs ! j"
          using j by (auto simp add: up_level_nth)
        with j ne show ?thesis
          by (simp add: up_part_nth)
      qed
    qed
  qed simp
  with False r l lv rv show ?thesis
    by (simp add: kernUpsweep_nat [OF wrap n32] load_def store_def thenr_def)
qed

lemma run_up_part:
  assumes "m * 2 ^ Suc d \<le> 2 ^ 32" and "n < 2 ^ 32"
    and "2 ^ Suc d dvd length xs" and "n \<le> length xs"
  shows "run_threads (kernUpsweep d (int n)) [0..<m] xs = Inr (up_part d n m xs)"
  using assms(1)
proof (induction m)
  case 0
  show ?case by (simp add: up_part_0)
next
  case (Suc m)
  then have "m * 2 ^ Suc d \<le> 2 ^ 32" by simp
  then have "run_threads (kernUpsweep d (int n)) [0..<m] xs = Inr (up_part d n m xs)"
    by (rule Suc.IH)
  then have "run_threads (kernUpsweep d (int n)) [0..<Suc m] xs
               = kernUpsweep d (int n) m (up_part d n m xs)"
    by (rule run_threads_snoc)
  also have "\<dots> = Inr (up_part d n (Suc m) xs)"
    using Suc.prems assms(2-4) by (intro up_thread) simp_all
  finally show ?case .
qed

lemma launch_kernUpsweep:
  assumes "blocks * blockSize * 2 ^ Suc d \<le> 2 ^ 32" and "n < 2 ^ 32"
    and "2 ^ Suc d dvd length xs" and "n \<le> length xs"
    and "length xs \<le> blocks * blockSize * 2 ^ Suc d"
  shows "launch blocks (kernUpsweep d (int n)) xs = Inr (up_level d n xs)"
  using run_up_part [OF assms(1-4)] up_part_all [OF assms(5)]
  by (simp add: launch_def)

lemma node_inside:
  fixes K :: nat
  assumes "K dvd P" "m * K \<le> j" "j < P"
  shows "Suc m * K \<le> P"
proof -
  from assms(1) obtain q where q: "P = K * q" by (auto elim: dvdE)
  have "K * m \<le> j" using assms(2) by (simp only: mult.commute)
  with q assms(3) have "K * m < K * q" by linarith
  then have "Suc m \<le> q" by simp
  then have "K * Suc m \<le> K * q" by (rule mult_le_mono2)
  with q show ?thesis by (simp only: mult.commute)
qed

lemma down_thread:
  assumes wrap: "Suc m * 2 ^ Suc d \<le> 2 ^ 32" and n32: "length xs < 2 ^ 32"
    and dvd: "2 ^ Suc d dvd length xs"
  shows "kernDownsweep d (int (length xs)) m (down_part d m xs) = Inr (down_part d (Suc m) xs)"
proof (cases "length xs < rightIdx d m")
  case True
  have "down_part d m xs = down_part d (Suc m) xs"
  proof (rule nth_equalityI)
    fix j assume "j < length (down_part d m xs)"
    then have j: "j < length xs" by simp
    have "\<not> (m * 2 ^ Suc d \<le> j)"
    proof
      assume "m * 2 ^ Suc d \<le> j"
      with dvd have "Suc m * 2 ^ Suc d \<le> length xs" using j by (rule node_inside)
      with rightIdx_lt [of d m] True show False by simp
    qed
    with j show "down_part d m xs ! j = down_part d (Suc m) xs ! j"
      by (auto simp add: down_part_nth)
  qed simp
  with True show ?thesis
    by (simp add: kernDownsweep_nat [OF wrap n32])
next
  case False
  then have "rightIdx d m \<le> length xs" by simp
  with dvd have r: "rightIdx d m < length xs" by (rule rightIdx_in_buffer)
  with leftIdx_less [of d m] have l: "leftIdx d m < length xs" by simp
  have lr: "leftIdx d m \<noteq> rightIdx d m"
    using leftIdx_less [of d m] by simp
  have lv: "down_part d m xs ! leftIdx d m = xs ! leftIdx d m"
    using l leftIdx_ge [of m d] by (simp add: down_part_nth)
  have "m * 2 ^ Suc d \<le> rightIdx d m"
    using leftIdx_ge [of m d] leftIdx_less [of d m] by simp
  then have rv: "down_part d m xs ! rightIdx d m = xs ! rightIdx d m"
    using r by (simp add: down_part_nth)
  have "(down_part d m xs)[leftIdx d m := xs ! rightIdx d m,
           rightIdx d m := xs ! rightIdx d m + xs ! leftIdx d m] = down_part d (Suc m) xs"
    (is "?ys = _")
  proof (rule nth_equalityI)
    fix j assume "j < length ?ys"
    then have j: "j < length xs" by simp
    show "?ys ! j = down_part d (Suc m) xs ! j"
    proof (cases "m * 2 ^ Suc d \<le> j \<and> j < Suc m * 2 ^ Suc d")
      case False
      then have "j \<noteq> leftIdx d m" "j \<noteq> rightIdx d m"
        using leftIdx_ge [of m d] leftIdx_less [of d m] rightIdx_lt [of d m] by auto
      with j False show ?thesis by (auto simp add: down_part_nth)
    next
      case inside: True
      then have in': "j < Suc m * 2 ^ Suc d" by simp
      consider "j = rightIdx d m" | "j = leftIdx d m" | "j \<noteq> rightIdx d m" "j \<noteq> leftIdx d m"
        by blast
      then show ?thesis
      proof cases
        case 1
        with r l in' show ?thesis
          by (simp add: down_part_nth down_level_nth rightIdx_aligned rightIdx_minus)
      next
        case 2
        with r l lr in' show ?thesis
          by (simp add: down_part_nth down_level_nth leftIdx_not_aligned leftIdx_half_aligned
              leftIdx_plus)
      next
        case 3
        have a: "\<not> 2 ^ Suc d dvd Suc j"
          using rightIdx_unique [of d j m] inside 3 by auto
        then have "\<not> 2 ^ d dvd Suc j"
          using leftIdx_unique [of d j m] inside 3 by auto
        with a have "down_level d xs ! j = xs ! j"
          using j by (simp add: down_level_nth)
        with j 3 in' show ?thesis
          by (simp add: down_part_nth)
      qed
    qed
  qed simp
  with False r l lr lv rv show ?thesis
    by (simp add: kernDownsweep_nat [OF wrap n32] load_def store_def thenr_def)
qed

lemma run_down_part:
  assumes "m * 2 ^ Suc d \<le> 2 ^ 32" and "length xs < 2 ^ 32" and "2 ^ Suc d dvd length xs"
  shows "run_threads (kernDownsweep d (int (length xs))) [0..<m] xs = Inr (down_part d m xs)"
  using assms(1)
proof (induction m)
  case 0
  show ?case by (simp add: down_part_0)
next
  case (Suc m)
  then have "m * 2 ^ Suc d \<le> 2 ^ 32" by simp
  then have "run_threads (kernDownsweep d (int (length xs))) [0..<m] xs = Inr (down_part d m xs)"
    by (rule Suc.IH)
  then have "run_threads (kernDownsweep d (int (length xs))) [0..<Suc m] xs
               = kernDownsweep d (int (length xs)) m (down_part d m xs)"
    by (rule run_threads_snoc)
  also have "\<dots> = Inr (down_part d (Suc m) xs)"
    using Suc.prems assms(2,3) by (rule down_thread)
  finally show ?case .
qed

lemma launch_kernDownsweep:
  assumes "blocks * blockSize * 2 ^ Suc d \<le> 2 ^ 32" and "length xs < 2 ^ 32"
    and "2 ^ Suc d dvd length xs"
    and "length xs \<le> blocks * blockSize * 2 ^ Suc d"
  shows "launch blocks (kernDownsweep d (int (length xs))) xs = Inr (down_level d xs)"
  using run_down_part [OF assms(1-3)] down_part_all [OF assms(4)]
  by (simp add: launch_def)

declare upsweep_loop.simps [simp del] downsweep_loop.simps [simp del]

lemma grid_threads:
  "fullBlocksPerGrid (2 ^ k) * blockSize = (if 7 \<le> k then 2 ^ k else 128)"
proof (cases "7 \<le> k")
  case True
  then obtain i where k: "k = 7 + i" using le_Suc_ex by blast
  have "(2::nat) ^ k = 128 * 2 ^ i" by (simp add: k power_add)
  then show ?thesis using True by (simp add: fullBlocksPerGrid_def blockSize_def)
next
  case False
  then have "k < 7" by simp
  then have "(2::nat) ^ k < 2 ^ 7" by (rule power_strict_increasing) simp
  then have "(2::nat) ^ k \<le> 127" by simp
  moreover have "1 \<le> (2::nat) ^ k" by simp
  ultimately have "((2::nat) ^ k + 127) div 128 = 1" by arith
  then show ?thesis using False by (simp add: fullBlocksPerGrid_def blockSize_def)
qed

lemma grid_no_wrap:
  assumes "d < L" "L \<le> 25" "k + d \<le> L"
  shows "fullBlocksPerGrid (2 ^ k) * blockSize * 2 ^ Suc d \<le> 2 ^ 32"
proof (cases "7 \<le> k")
  case True
  have "(2::nat) ^ k * 2 ^ Suc d = 2 ^ (k + Suc d)" by (simp only: power_add)
  also have "\<dots> \<le> 2 ^ 32" using assms by (intro power_increasing) simp_all
  finally show ?thesis using True by (simp add: grid_threads)
next
  case False
  have "(128::nat) * 2 ^ Suc d = 2 ^ (7 + Suc d)" by (simp only: power_add) simp
  also have "\<dots> \<le> 2 ^ 32" using assms by (intro power_increasing) simp_all
  finally show ?thesis using False by (simp add: grid_threads)
qed

lemma grid_covers:
  assumes "L \<le> Suc (k + d)"
  shows "(2::nat) ^ L \<le> fullBlocksPerGrid (2 ^ k) * blockSize * 2 ^ Suc d"
proof -
  have "(2::nat) ^ L \<le> 2 ^ (k + Suc d)" using assms by (intro power_increasing) simp_all
  also have "\<dots> = 2 ^ k * 2 ^ Suc d" by (simp only: power_add)
  also have "\<dots> \<le> fullBlocksPerGrid (2 ^ k) * blockSize * 2 ^ Suc d"
  proof (rule mult_le_mono1)
    have "k < 7 \<Longrightarrow> (2::nat) ^ k \<le> 2 ^ 7" by (intro power_increasing) simp_all
    then show "2 ^ k \<le> fullBlocksPerGrid (2 ^ k) * blockSize"
      by (auto simp add: grid_threads)
  qed
  finally show ?thesis .
qed

lemma pow25_lt: "L \<le> 25 \<Longrightarrow> (2::nat) ^ L < 2 ^ 32"
  by (rule power_strict_increasing) simp_all

lemma upsweep_loop_fold:
  assumes "L \<le> 25" "length xs = 2 ^ L" "n \<le> 2 ^ L" "d \<le> L"
  shows "upsweep_loop L d (int n) (2 ^ (L - d)) xs
           = Inr (1, fold (\<lambda>e. up_level e n) [d..<L] xs)"
  using assms(2,4)
proof (induction "L - d" arbitrary: d xs)
  case 0
  then show ?case by (simp add: upsweep_loop.simps)
next
  case (Suc k)
  then have d: "d < L" and k: "k = L - Suc d" by simp_all
  have n32: "n < 2 ^ 32" using assms(3) pow25_lt [OF assms(1)] by simp
  have dvd: "2 ^ Suc d dvd length xs"
    using d by (simp add: Suc.prems le_imp_power_dvd)
  have "launch (fullBlocksPerGrid (2 ^ (L - d))) (kernUpsweep d (int n)) xs
          = Inr (up_level d n xs)"
  proof (rule launch_kernUpsweep)
    show "fullBlocksPerGrid (2 ^ (L - d)) * blockSize * 2 ^ Suc d \<le> 2 ^ 32"
      using d assms(1) by (intro grid_no_wrap [of d L]) simp_all
    show "length xs \<le> fullBlocksPerGrid (2 ^ (L - d)) * blockSize * 2 ^ Suc d"
      unfolding Suc.prems(1) using d by (intro grid_covers) simp
  qed (use n32 dvd assms(3) Suc.prems in simp_all)
  moreover have "(2::nat) ^ (L - d) div 2 = 2 ^ (L - Suc d)"
  proof -
    have "L - d = Suc (L - Suc d)" using d by simp
    then show ?thesis by (simp add: power_Suc)
  qed
  moreover have "upsweep_loop L (Suc d) (int n) (2 ^ (L - Suc d)) (up_level d n xs)
          = Inr (1, fold (\<lambda>e. up_level e n) [Suc d..<L] (up_level d n xs))"
    using k d Suc.prems by (intro Suc.hyps) simp_all
  ultimately show ?case
    using d by (subst upsweep_loop.simps) (simp add: thenr_def upt_conv_Cons)
qed

lemma downsweep_loop_fold:
  assumes "L \<le> 25" "length xs = 2 ^ L" "d \<le> L"
  shows "downsweep_loop (int d - 1) (int (2 ^ L)) (2 ^ (L - d)) xs
           = Inr (fold down_level (rev [0..<d]) xs)"
  using assms(2,3)
proof (induction d arbitrary: xs)
  case 0
  show ?case by (subst downsweep_loop.simps) simp
next
  case (Suc d)
  then have d: "d < L" by simp
  have len: "int (2 ^ L) = int (length xs)" by (simp add: Suc.prems)
  have "launch (fullBlocksPerGrid (2 ^ (L - Suc d))) (kernDownsweep d (int (length xs))) xs
          = Inr (down_level d xs)"
  proof (rule launch_kernDownsweep)
    show "fullBlocksPerGrid (2 ^ (L - Suc d)) * blockSize * 2 ^ Suc d \<le> 2 ^ 32"
      using d assms(1) by (intro grid_no_wrap [of d L]) simp_all
    show "length xs \<le> fullBlocksPerGrid (2 ^ (L - Suc d)) * blockSize * 2 ^ Suc d"
      unfolding Suc.prems(1) using d by (intro grid_covers) simp
    show "length xs < 2 ^ 32" using pow25_lt [OF assms(1)] by (simp add: Suc.prems)
    show "2 ^ Suc d dvd length xs" using d by (simp add: Suc.prems le_imp_power_dvd)
  qed
  moreover have "(2::nat) ^ (L - Suc d) * 2 = 2 ^ (L - d)"
  proof -
    have "L - d = Suc (L - Suc d)" using d by simp
    then show ?thesis by (simp add: power_Suc)
  qed
  moreover have "downsweep_loop (int d - 1) (int (2 ^ L)) (2 ^ (L - d)) (down_level d xs)
          = Inr (fold down_level (rev [0..<d]) (down_level d xs))"
    using d Suc.prems by (intro Suc.IH) simp_all
  ultimately show ?case
    by (subst downsweep_loop.simps) (simp add: thenr_def len del: of_nat_power)
qed

lemma seg_empty [simp]: "seg xs a a = 0"
  by (simp add: seg_def)

lemma seg_single: "seg xs j (Suc j) = xs ! j"
  by (simp add: seg_def)

lemma seg_concat: "a \<le> b \<Longrightarrow> b \<le> c \<Longrightarrow> seg xs a b + seg xs b c = seg xs a c"
  by (simp add: seg_def sum.atLeastLessThan_concat)

lemma up_sweep_0 [simp]: "up_sweep 0 n xs = xs"
  by (simp add: up_sweep_def)

lemma up_sweep_Suc: "up_sweep (Suc k) n xs = up_level k n (up_sweep k n xs)"
  by (simp add: up_sweep_def)

lemma length_up_sweep [simp]: "length (up_sweep k n xs) = length xs"
  by (induction k) (simp_all add: up_sweep_Suc)

lemma pow_dvd_Suc: "2 ^ Suc e dvd (m::nat) \<Longrightarrow> 2 ^ e dvd m"
  by (metis dvd_mult_right mult.commute power_Suc)

lemma pow_dvd_le: "a \<le> b \<Longrightarrow> 2 ^ b dvd (m::nat) \<Longrightarrow> 2 ^ a dvd m"
  by (metis dvd_trans le_imp_power_dvd)

lemma up_sweep_nth:
  fixes xs :: "'a::comm_monoid_add list"
  assumes "j < length xs" "e \<le> k" "2 ^ e dvd Suc j" "e = k \<or> \<not> 2 ^ Suc e dvd Suc j"
  shows "up_sweep k n xs ! j = (if j \<le> n then seg xs (Suc j - 2 ^ e) (Suc j) else xs ! j)"
  using assms
proof (induction k arbitrary: j e)
  case 0
  then show ?case by (simp add: seg_single)
next
  case (Suc k)
  let ?U = "up_sweep k n xs"
  have j: "j < length ?U" using Suc.prems(1) by simp
  show ?case
  proof (cases "e = Suc k")
    case True
    then have al: "2 ^ Suc k dvd Suc j" using Suc.prems by simp
    then have alk: "2 ^ k dvd Suc j" by (rule pow_dvd_Suc)
    have Uj: "?U ! j = (if j \<le> n then seg xs (Suc j - 2 ^ k) (Suc j) else xs ! j)"
      using Suc.prems(1) alk by (intro Suc.IH) simp_all
    show ?thesis
    proof (cases "j \<le> n")
      case False
      with j al Uj True show ?thesis by (simp add: up_sweep_Suc up_level_nth)
    next
      case jn: True
      have "2 ^ Suc k \<le> Suc j" using al by (rule dvd_imp_le) simp
      then have big: "2 * 2 ^ k \<le> Suc j" by (simp add: power_Suc)
      then have S: "Suc (j - 2 ^ k) = Suc j - 2 ^ k" by simp
      have "2 ^ k dvd Suc j - 2 ^ k" using alk by (intro dvd_diff_nat) simp_all
      then have al': "2 ^ k dvd Suc (j - 2 ^ k)" by (simp only: S)
      have jl: "j - 2 ^ k \<le> n" using jn by simp
      have idx: "Suc j - 2 ^ k - 2 ^ k = Suc j - 2 ^ Suc k"
        by (simp add: power_Suc)
      have "?U ! (j - 2 ^ k) = (if j - 2 ^ k \<le> n then seg xs (Suc (j - 2 ^ k) - 2 ^ k) (Suc (j - 2 ^ k))
              else xs ! (j - 2 ^ k))"
        using Suc.prems(1) al' by (intro Suc.IH) simp_all
      then have "?U ! (j - 2 ^ k) = seg xs (Suc (j - 2 ^ k) - 2 ^ k) (Suc (j - 2 ^ k))"
        using jl by (simp only: if_True)
      then have Ul: "?U ! (j - 2 ^ k) = seg xs (Suc j - 2 ^ Suc k) (Suc j - 2 ^ k)"
        by (simp only: S idx)
      have "seg xs (Suc j - 2 ^ Suc k) (Suc j - 2 ^ k) + seg xs (Suc j - 2 ^ k) (Suc j)
              = seg xs (Suc j - 2 ^ Suc k) (Suc j)"
        by (rule seg_concat) (simp_all add: power_Suc)
      with j al jn Uj Ul True show ?thesis
        by (simp add: up_sweep_Suc up_level_nth add.commute)
    qed
  next
    case False
    with Suc.prems have ek: "e \<le> k" and na: "\<not> 2 ^ Suc e dvd Suc j" by simp_all
    have "\<not> 2 ^ Suc k dvd Suc j"
      using na ek pow_dvd_le [of "Suc e" "Suc k" "Suc j"] by auto
    then have "up_sweep (Suc k) n xs ! j = ?U ! j"
      using j by (simp add: up_sweep_Suc up_level_nth)
    also have "\<dots> = (if j \<le> n then seg xs (Suc j - 2 ^ e) (Suc j) else xs ! j)"
      using Suc.prems(1) ek Suc.prems(3) na by (intro Suc.IH) simp_all
    finally show ?thesis .
  qed
qed

declare cut_at.simps [simp del]

lemma cut_small: "b \<le> Suc n \<Longrightarrow> cut_at n d b = b"
  by (subst cut_at.simps) simp

lemma cut_aligned: "2 ^ Suc d dvd b \<Longrightarrow> cut_at n d b = cut_at n (Suc d) b"
  by (subst cut_at.simps) (simp add: cut_small)

lemma cut_right:
  assumes "\<not> m * 2 ^ Suc d + 2 ^ d \<le> Suc n"
  shows "cut_at n d (m * 2 ^ Suc d + 2 ^ d) = cut_at n (Suc d) (m * 2 ^ Suc d)"
proof -
  have "(2::nat) ^ d < 2 ^ Suc d" by (simp add: power_Suc)
  then have "(m * 2 ^ Suc d + 2 ^ d) div 2 ^ Suc d = m" by simp
  with assms show ?thesis by (subst cut_at.simps) simp
qed

lemma cut_le: "cut_at n d b \<le> b"
proof (induction n d b rule: cut_at.induct)
  case (1 n d b)
  show ?case
  proof (cases "b \<le> Suc n")
    case True
    then show ?thesis by (simp add: cut_small)
  next
    case False
    with 1 have "cut_at n (Suc d) (b div 2 ^ Suc d * 2 ^ Suc d) \<le> b div 2 ^ Suc d * 2 ^ Suc d"
      by simp
    also have "\<dots> \<le> b" by simp
    finally show ?thesis using False by (subst cut_at.simps) simp
  qed
qed

lemma cut_bound: "cut_at n d b \<le> Suc n"
proof (induction n d b rule: cut_at.induct)
  case (1 n d b)
  show ?case
  proof (cases "b \<le> Suc n")
    case True
    then show ?thesis by (simp add: cut_small)
  next
    case False
    with 1 show ?thesis by (subst cut_at.simps) simp
  qed
qed

lemma down_sweep_top [simp]: "down_sweep L L ys = ys"
  by (simp add: down_sweep_def)

lemma down_sweep_step: "d < L \<Longrightarrow> down_sweep d L ys = down_level d (down_sweep (Suc d) L ys)"
  by (simp add: down_sweep_def upt_conv_Cons)

lemma length_down_sweep [simp]: "length (down_sweep d L ys) = length ys"
  by (simp add: down_sweep_def fold_invariant [where Q = "\<lambda>_. True" and P = "\<lambda>zs. length zs = length ys"])

lemma node_bounds:
  "j div 2 ^ Suc d * 2 ^ Suc d \<le> j" "j < Suc (j div 2 ^ Suc d) * 2 ^ Suc d"
proof -
  show "j div 2 ^ Suc d * 2 ^ Suc d \<le> j" by simp
  have "j < j div 2 ^ Suc d * 2 ^ Suc d + 2 ^ Suc d"
    using dividend_less_div_times [of "2 ^ Suc d" j] by (simp add: add.commute)
  then show "j < Suc (j div 2 ^ Suc d) * 2 ^ Suc d" by simp
qed

lemma down_sweep_nth:
  fixes xs :: "'a::comm_monoid_add list"
  assumes len: "length xs = 2 ^ L"
    and pad: "\<And>j. n < j \<Longrightarrow> j < 2 ^ L \<Longrightarrow> xs ! j = 0"
    and "d \<le> L" "j < 2 ^ L"
  shows "(2 ^ d dvd Suc j \<longrightarrow>
            down_sweep d L ((up_sweep L n xs)[2 ^ L - Suc 0 := 0]) ! j
              = seg xs 0 (cut_at n d (Suc j - 2 ^ d)))
       \<and> (\<forall>e<d. 2 ^ e dvd Suc j \<longrightarrow> \<not> 2 ^ Suc e dvd Suc j \<longrightarrow>
            down_sweep d L ((up_sweep L n xs)[2 ^ L - Suc 0 := 0]) ! j
              = (if j \<le> n then seg xs (Suc j - 2 ^ e) (Suc j) else 0))"
    (is "?A d j \<and> ?B d j")
  using assms(3,4)
proof (induction "L - d" arbitrary: d j)
  case 0
  then have d: "d = L" by simp
  let ?Y = "(up_sweep L n xs)[2 ^ L - Suc 0 := 0]"
  have A: "?A d j"
  proof
    assume "2 ^ d dvd Suc j"
    then have "2 ^ L \<le> Suc j" unfolding d by (rule dvd_imp_le) simp
    with "0.prems"(2) have j: "j = 2 ^ L - Suc 0" by simp
    have "Suc j - 2 ^ L = 0" using "0.prems"(2) by simp
    moreover have "?Y ! j = 0" unfolding j using len by simp
    ultimately show "down_sweep d L ?Y ! j = seg xs 0 (cut_at n d (Suc j - 2 ^ d))"
      by (simp add: d cut_small)
  qed
  have B: "?B d j"
  proof (intro allI impI)
    fix e assume e: "e < d" and al: "2 ^ e dvd Suc j" and na: "\<not> 2 ^ Suc e dvd Suc j"
    have "(2::nat) ^ Suc e dvd 2 ^ L" using e d by (intro le_imp_power_dvd) simp
    with na have "Suc j \<noteq> 2 ^ L" by auto
    then have "j \<noteq> 2 ^ L - Suc 0" by auto
    then have "?Y ! j = up_sweep L n xs ! j" by simp
    also have "\<dots> = (if j \<le> n then seg xs (Suc j - 2 ^ e) (Suc j) else xs ! j)"
      using "0.prems"(2) e d al na by (intro up_sweep_nth) (simp_all add: len)
    also have "\<dots> = (if j \<le> n then seg xs (Suc j - 2 ^ e) (Suc j) else 0)"
      using pad [of j] "0.prems"(2) by simp
    finally show "down_sweep d L ?Y ! j = (if j \<le> n then seg xs (Suc j - 2 ^ e) (Suc j) else 0)"
      by (simp add: d)
  qed
  from A B show ?case ..
next
  case (Suc k)
  then have dL: "d < L" and k: "k = L - Suc d" by simp_all
  let ?Y = "(up_sweep L n xs)[2 ^ L - Suc 0 := 0]"
  let ?D = "down_sweep (Suc d) L ?Y"
  have IH: "?A (Suc d) i \<and> ?B (Suc d) i" if "i < 2 ^ L" for i
    using k dL that by (intro Suc.hyps) simp_all
  have lenD: "length ?D = 2 ^ L" by (simp add: len)
  have step: "down_sweep d L ?Y = down_level d ?D"
    using dL by (rule down_sweep_step)
  define m where "m = j div 2 ^ Suc d"
  have lo: "m * 2 ^ Suc d \<le> j" and hi: "j < Suc m * 2 ^ Suc d"
    unfolding m_def by (rule node_bounds)+
  have Kdvd: "2 ^ Suc d dvd (2::nat) ^ L" using dL by (intro le_imp_power_dvd) simp
  have inside: "Suc m * 2 ^ Suc d \<le> 2 ^ L"
    using Kdvd lo Suc.prems(2) by (rule node_inside)
  have r: "rightIdx d m < 2 ^ L" using rightIdx_lt [of d m] inside by simp
  have l: "leftIdx d m < 2 ^ L" using leftIdx_less [of d m] r by simp
  have Sr: "Suc (rightIdx d m) - 2 ^ Suc d = m * 2 ^ Suc d"
    by (simp add: Suc_rightIdx)
  have Dr: "?D ! rightIdx d m = seg xs 0 (cut_at n (Suc d) (m * 2 ^ Suc d))"
    using IH [OF r] rightIdx_aligned [of d m] by (simp only: Sr)
  have Sl: "Suc (leftIdx d m) - 2 ^ d = m * 2 ^ Suc d"
    by (simp add: Suc_leftIdx)
  have "?B (Suc d) (leftIdx d m)"
    using IH [OF l] by (rule conjunct2)
  then have "?D ! leftIdx d m
      = (if leftIdx d m \<le> n then seg xs (Suc (leftIdx d m) - 2 ^ d) (Suc (leftIdx d m)) else 0)"
    using leftIdx_half_aligned [of d m] leftIdx_not_aligned [of d m] by blast
  then have Dl: "?D ! leftIdx d m
              = (if leftIdx d m \<le> n then seg xs (m * 2 ^ Suc d) (m * 2 ^ Suc d + 2 ^ d) else 0)"
    by (simp only: Suc_leftIdx add_diff_cancel_right')
  have A: "?A d j"
  proof
    assume al: "2 ^ d dvd Suc j"
    show "down_sweep d L ?Y ! j = seg xs 0 (cut_at n d (Suc j - 2 ^ d))"
    proof (cases "2 ^ Suc d dvd Suc j")
      case True
      then have j: "j = rightIdx d m" using lo hi by (rule rightIdx_unique)
      have S: "Suc (rightIdx d m) - 2 ^ d = m * 2 ^ Suc d + 2 ^ d"
        by (simp add: Suc_rightIdx power_Suc)
      have "down_sweep d L ?Y ! j = ?D ! rightIdx d m + ?D ! leftIdx d m"
        unfolding step j using r lenD
        by (simp add: down_level_nth rightIdx_aligned rightIdx_minus)
      also have "\<dots> = seg xs 0 (cut_at n d (m * 2 ^ Suc d + 2 ^ d))"
      proof (cases "leftIdx d m \<le> n")
        case True
        then have b: "m * 2 ^ Suc d + 2 ^ d \<le> Suc n"
          using Suc_leftIdx [of d m] by simp
        then have "m * 2 ^ Suc d \<le> Suc n" by simp
        then have "?D ! rightIdx d m = seg xs 0 (m * 2 ^ Suc d)"
          unfolding Dr by (simp only: cut_small)
        moreover have "?D ! leftIdx d m = seg xs (m * 2 ^ Suc d) (m * 2 ^ Suc d + 2 ^ d)"
          unfolding Dl using True by (simp only: if_True)
        moreover have "cut_at n d (m * 2 ^ Suc d + 2 ^ d) = m * 2 ^ Suc d + 2 ^ d"
          using b by (rule cut_small)
        moreover have "seg xs 0 (m * 2 ^ Suc d) + seg xs (m * 2 ^ Suc d) (m * 2 ^ Suc d + 2 ^ d)
            = seg xs 0 (m * 2 ^ Suc d + 2 ^ d)"
          by (rule seg_concat) simp_all
        ultimately show ?thesis by (simp only:)
      next
        case False
        then have "\<not> m * 2 ^ Suc d + 2 ^ d \<le> Suc n"
          using Suc_leftIdx [of d m] by simp
        then have "cut_at n d (m * 2 ^ Suc d + 2 ^ d) = cut_at n (Suc d) (m * 2 ^ Suc d)"
          by (rule cut_right)
        moreover have "?D ! leftIdx d m = 0"
          unfolding Dl using False by (simp only: if_False)
        ultimately show ?thesis by (simp only: Dr add_0_right)
      qed
      finally show ?thesis by (simp only: j S)
    next
      case False
      with al have j: "j = leftIdx d m" using lo hi by (rule leftIdx_unique)
      have "down_sweep d L ?Y ! j = ?D ! rightIdx d m"
        unfolding step j using l lenD
        by (simp add: down_level_nth leftIdx_not_aligned leftIdx_half_aligned leftIdx_plus)
      also have "\<dots> = seg xs 0 (cut_at n d (m * 2 ^ Suc d))"
        unfolding Dr by (simp add: cut_aligned)
      finally show ?thesis by (simp only: j Sl)
    qed
  qed
  have B: "?B d j"
  proof (intro allI impI)
    fix e assume e: "e < d" and al: "2 ^ e dvd Suc j" and na: "\<not> 2 ^ Suc e dvd Suc j"
    have nd: "\<not> 2 ^ d dvd Suc j"
      using na e pow_dvd_le [of "Suc e" d "Suc j"] by auto
    then have "\<not> 2 ^ Suc d dvd Suc j"
      using pow_dvd_Suc by blast
    with nd have "down_sweep d L ?Y ! j = ?D ! j"
      unfolding step using Suc.prems(2) lenD by (simp add: down_level_nth)
    also have "\<dots> = (if j \<le> n then seg xs (Suc j - 2 ^ e) (Suc j) else 0)"
      using IH [OF Suc.prems(2)] e al na by simp
    finally show "down_sweep d L ?Y ! j = (if j \<le> n then seg xs (Suc j - 2 ^ e) (Suc j) else 0)" .
  qed
  from A B show ?case ..
qed

lemma down_sweep_result:
  fixes xs :: "'a::comm_monoid_add list"
  assumes "length xs = 2 ^ L"
    and "\<And>j. n < j \<Longrightarrow> j < 2 ^ L \<Longrightarrow> xs ! j = 0"
    and "j < 2 ^ L"
  shows "down_sweep 0 L ((up_sweep L n xs)[2 ^ L - Suc 0 := 0]) ! j = seg xs 0 (cut_at n 0 j)"
  using down_sweep_nth [where d = 0 and j = j and n = n and xs = xs and L = L,
      OF assms(1) assms(2) le0 assms(3)]
  by simp

lemma size_bytes_nat: "k < 2 ^ 62 \<Longrightarrow> size_bytes (int k) = 4 * k"
proof -
  assume "k < 2 ^ 62"
  then have "4 * k < 2 ^ 64" by simp
  moreover have "(word_of_int (int k) :: 64 word) * 4 = of_nat (4 * k)" by simp
  ultimately show ?thesis by (simp only: size_bytes_def unat_of_nat) simp
qed

lemma size_bytes_diff: "n \<le> P \<Longrightarrow> P < 2 ^ 62 \<Longrightarrow> size_bytes (int P - int n) = 4 * (P - n)"
  using size_bytes_nat [of "P - n"] by (simp add: of_nat_diff)

lemma size_bytes_1: "size_bytes 1 = 4"
  using size_bytes_nat [of 1] by simp

lemma cudaMemcpy_cells:
  "c \<le> length dst \<Longrightarrow> c \<le> length src \<Longrightarrow> cudaMemcpy dst src (4 * c) = Inr (take c src @ drop c dst)"
  by (simp add: cudaMemcpy_def)

lemma cudaMemset0_cells:
  "off + c \<le> length buf \<Longrightarrow>
   cudaMemset0 buf (int off) (4 * c) = Inr (take off buf @ replicate c 0 @ drop (off + c) buf)"
  by (simp add: cudaMemset0_def)

lemma cudaMemset0_one:
  assumes "0 < length buf"
  shows "cudaMemset0 buf (int (length buf) - 1) 4 = Inr (buf[length buf - Suc 0 := 0])"
proof -
  define k where "k = length buf - Suc 0"
  have len: "length buf = Suc k" using assms by (simp add: k_def)
  have off: "int (length buf) - 1 = int k" by (simp add: len)
  have "cudaMemset0 buf (int k) (4 * 1) = Inr (take k buf @ replicate 1 0 @ drop (k + 1) buf)"
    by (rule cudaMemset0_cells) (simp add: len)
  moreover have "buf[k := 0] = take k buf @ 0 # drop (Suc k) buf"
    by (rule upd_conv_take_nth_drop) (simp add: len)
  ultimately have "cudaMemset0 buf (int k) 4 = Inr (buf[k := 0])" by simp
  then show ?thesis unfolding off k_def .
qed

lemma padded_size:
  assumes "n \<le> 2 ^ 25"
  shows "ilog2ceil (int n) \<le> 25" and "n \<le> 2 ^ ilog2ceil (int n)"
proof -
  from assms have "int n \<le> 2 ^ 25" by simp
  then show "ilog2ceil (int n) \<le> 25" by (rule ilog2ceil_least)
  have "int n \<le> 2 ^ ilog2ceil (int n)" by (rule ilog2ceil_bound)
  then have "int n \<le> int (2 ^ ilog2ceil (int n))" by simp
  then show "n \<le> 2 ^ ilog2ceil (int n)" by (simp only: of_nat_le_iff)
qed

lemma length_padded: "length xs \<le> P \<Longrightarrow> length (padded P xs) = P"
  by (simp add: padded_def)

lemma padded_nth: "j < P \<Longrightarrow> padded P xs ! j = (if j < length xs then xs ! j else 0)"
  by (auto simp add: padded_def nth_append)

lemma length_sweeps [simp]: "length (sweeps L n xs) = length xs"
  by (simp add: sweeps_def)

text \<open>The body of \<open>scan\<close> and of the inner block of \<open>compact\<close>, from the padding
  \<open>cudaMemset\<close> to the end of the downsweep loop.\<close>

lemma sweep_block:
  assumes L: "L \<le> 25" and len: "length buf = 2 ^ L" and n: "n \<le> 2 ^ L"
  shows "thenr (cudaMemset0 buf (int n) (size_bytes (int (2 ^ L) - int n))) (\<lambda>dev_data.
         thenr (upsweep_loop (ilog2ceil (int (2 ^ L))) 0 (int n) (2 ^ L) dev_data)
           (\<lambda>(neededThreads, dev_data).
         thenr (cudaMemset0 dev_data (int (2 ^ L) - 1) (size_bytes 1)) (\<lambda>dev_data.
         thenr (downsweep_loop (int (ilog2ceil (int (2 ^ L))) - 1)
                  (int (2 ^ L)) neededThreads dev_data) k)))
       = k (sweeps L n (padded (2 ^ L) (take n buf)))"
proof -
  let ?P = "(2::nat) ^ L"
  let ?xs = "padded ?P (take n buf)"
  have P62: "?P < 2 ^ 62" using L by (intro power_strict_increasing) simp_all
  have lenxs: "length ?xs = ?P" using n len by (simp add: padded_def)
  have pos: "0 < length (up_sweep L n ?xs)" by (simp add: lenxs)
  have "cudaMemset0 buf (int n) (size_bytes (int ?P - int n)) = Inr ?xs"
    unfolding size_bytes_diff [OF n P62]
    using n len cudaMemset0_cells [of n "?P - n" buf]
    by (simp add: padded_def)
  moreover have "ilog2ceil (int ?P) = L" by (rule ilog2ceil_int_power)
  moreover have "upsweep_loop L 0 (int n) ?P ?xs = Inr (1, up_sweep L n ?xs)"
    using upsweep_loop_fold [OF L lenxs n, of 0] by (simp add: up_sweep_def)
  moreover have "cudaMemset0 (up_sweep L n ?xs) (int ?P - 1) (size_bytes 1)
      = Inr ((up_sweep L n ?xs)[?P - Suc 0 := 0])"
    using cudaMemset0_one [OF pos] by (simp add: lenxs size_bytes_1 del: of_nat_power)
  moreover have "downsweep_loop (int L - 1) (int ?P) 1 ((up_sweep L n ?xs)[?P - Suc 0 := 0])
      = Inr (sweeps L n ?xs)"
    using downsweep_loop_fold [OF L, of "(up_sweep L n ?xs)[?P - Suc 0 := 0]" L]
    by (simp add: lenxs sweeps_def down_sweep_def del: of_nat_power)
  ultimately show ?thesis
    by (simp add: thenr_def del: of_nat_power)
qed

lemma seg_padded:
  assumes "i \<le> length xs" "length xs \<le> P"
  shows "seg (padded P xs) 0 i = sum_list (take i xs)"
proof -
  have "sum_list (take i xs) = (\<Sum>k = 0..<length (take i xs). take i xs ! k)"
    by (rule sum_list_sum_nth)
  also have "\<dots> = (\<Sum>k = 0..<i. padded P xs ! k)"
    using assms by (intro sum.cong) (simp_all add: padded_nth)
  finally show ?thesis by (simp add: seg_def)
qed

lemma sweeps_nth:
  fixes xs :: "'a::comm_monoid_add list"
  assumes "length xs \<le> 2 ^ L" "j < 2 ^ L"
  shows "sweeps L (length xs) (padded (2 ^ L) xs) ! j
           = seg (padded (2 ^ L) xs) 0 (cut_at (length xs) 0 j)"
  unfolding sweeps_def
proof (rule down_sweep_result)
  show "length (padded (2 ^ L) xs) = 2 ^ L" using assms(1) by (rule length_padded)
  show "padded (2 ^ L) xs ! i = 0" if "length xs < i" "i < 2 ^ L" for i
    using that by (simp add: padded_nth)
  show "j < 2 ^ L" by fact
qed

lemma sweeps_prefix:
  fixes xs :: "'a::comm_monoid_add list"
  assumes "length xs \<le> 2 ^ L" "j < 2 ^ L" "j \<le> Suc (length xs)"
  shows "sweeps L (length xs) (padded (2 ^ L) xs) ! j = sum_list (take j xs)"
proof -
  have "sweeps L (length xs) (padded (2 ^ L) xs) ! j = seg (padded (2 ^ L) xs) 0 j"
    using sweeps_nth [OF assms(1,2)] assms(3) by (simp add: cut_small)
  also have "\<dots> = sum_list (take j xs)"
  proof (cases "j \<le> length xs")
    case True
    then show ?thesis using assms(1) by (rule seg_padded)
  next
    case False
    with assms(3) have j: "j = Suc (length xs)" by simp
    have "seg (padded (2 ^ L) xs) 0 (length xs) + seg (padded (2 ^ L) xs) (length xs) (Suc (length xs))
            = seg (padded (2 ^ L) xs) 0 j"
      unfolding j by (rule seg_concat) simp_all
    moreover have "seg (padded (2 ^ L) xs) (length xs) (Suc (length xs)) = 0"
      using assms(2) j by (simp add: seg_single padded_nth)
    moreover have "seg (padded (2 ^ L) xs) 0 (length xs) = sum_list (take (length xs) xs)"
      using assms(1) by (intro seg_padded) simp_all
    ultimately show ?thesis by (simp add: j)
  qed
  finally show ?thesis .
qed

lemma take_sweeps:
  fixes xs :: "'a::comm_monoid_add list"
  assumes "length xs \<le> 2 ^ L"
  shows "take (length xs) (sweeps L (length xs) (padded (2 ^ L) xs)) = prefix_sums xs"
proof (rule nth_equalityI)
  show "length (take (length xs) (sweeps L (length xs) (padded (2 ^ L) xs))) = length (prefix_sums xs)"
    using assms by (simp add: prefix_sums_def length_padded)
  fix i assume "i < length (take (length xs) (sweeps L (length xs) (padded (2 ^ L) xs)))"
  then have i: "i < length xs" by simp
  with assms have "i < 2 ^ L" by simp
  with assms have "sweeps L (length xs) (padded (2 ^ L) xs) ! i = sum_list (take i xs)"
    using i by (intro sweeps_prefix) simp_all
  with i show "take (length xs) (sweeps L (length xs) (padded (2 ^ L) xs)) ! i = prefix_sums xs ! i"
    by (simp add: prefix_sums_def)
qed

lemma scan_result:
  assumes n: "length idata = n" and bound: "n \<le> 2 ^ 25"
  shows "scan junk (int n) idata = Inr (prefix_sums idata)"
proof -
  define L where "L = ilog2ceil (int n)"
  have L: "L \<le> 25" and nP: "n \<le> 2 ^ L"
    unfolding L_def using bound by (rule padded_size)+
  define dev0 where "dev0 = cudaMalloc (junk 0) (2 ^ L)"
  have len0: "length dev0 = 2 ^ L" by (simp add: dev0_def cudaMalloc_def)
  have n62: "n < 2 ^ 62" using bound by simp
  define buf where "buf = take n idata @ drop n dev0"
  have copy: "cudaMemcpy dev0 idata (size_bytes (int n)) = Inr buf"
    unfolding size_bytes_nat [OF n62] buf_def
    using nP n by (intro cudaMemcpy_cells) (simp_all add: len0)
  have lenb: "length buf = 2 ^ L" using nP n by (simp add: buf_def len0)
  have tk: "take n buf = idata" using n by (simp add: buf_def)
  let ?out = "sweeps L n (padded (2 ^ L) idata)"
  have lenout: "length ?out = 2 ^ L" using nP n by (simp add: length_padded)
  have out: "cudaMemcpy (replicate n 0) ?out (size_bytes (int n)) = Inr (take n ?out)"
    unfolding size_bytes_nat [OF n62]
    using nP n cudaMemcpy_cells [of n "replicate n 0" ?out] by (simp add: length_padded)
  have "scan junk (int n) idata = thenr (Inr buf) (\<lambda>dev_data.
         thenr (cudaMemset0 dev_data (int n) (size_bytes (int (2 ^ L) - int n))) (\<lambda>dev_data.
         thenr (upsweep_loop (ilog2ceil (int (2 ^ L))) 0 (int n) (2 ^ L) dev_data)
           (\<lambda>(neededThreads, dev_data).
         thenr (cudaMemset0 dev_data (int (2 ^ L) - 1) (size_bytes 1)) (\<lambda>dev_data.
         thenr (downsweep_loop (int (ilog2ceil (int (2 ^ L))) - 1)
                  (int (2 ^ L)) neededThreads dev_data) (\<lambda>dev_data.
         cudaMemcpy (replicate (nat (int n)) 0) dev_data (size_bytes (int n)))))))"
    unfolding scan_def scan_body_def Let_def L_def [symmetric] dev0_def [symmetric] copy ..
  also have "\<dots> = cudaMemcpy (replicate (nat (int n)) 0) (sweeps L n (padded (2 ^ L) (take n buf)))
                      (size_bytes (int n))"
    unfolding thenr_def sum.case using sweep_block [OF L lenb nP] unfolding thenr_def .
  also have "\<dots> = Inr (take n ?out)"
    using out by (simp add: tk)
  also have "take n ?out = prefix_sums idata"
    using take_sweeps [of idata L] nP n by simp
  finally show ?thesis .
qed

lemma sum_list_word_of_int: "(sum_list ws :: i32) = word_of_int (sum_list (map sint ws))"
  by (induction ws) simp_all

lemma sint_sum_list:
  assumes "- (2 ^ 31) \<le> sum_list (map sint ws)" "sum_list (map sint ws) < 2 ^ 31"
  shows "sint (sum_list ws :: i32) = sum_list (map sint ws)"
proof -
  have "sint (sum_list ws :: i32) = signed_take_bit 31 (sum_list (map sint ws))"
    by (subst sum_list_word_of_int) (simp add: signed_of_int)
  also have "\<dots> = sum_list (map sint ws)"
    using assms by (rule signed_take_bit_int_eq_self)
  finally show ?thesis .
qed

lemma run_kernMapToBoolean:
  assumes "length bools = P" "length idata = P"
  shows "run_threads (kernMapToBoolean P idata) [0..<m] bools
           = Inr (map (\<lambda>j. if j < m then to_bool (idata ! j) else bools ! j) [0..<P])"
proof (induction m)
  case 0
  show ?case using assms(1) map_nth [of bools] by simp
next
  case (Suc m)
  let ?b = "map (\<lambda>j. if j < m then to_bool (idata ! j) else bools ! j) [0..<P]"
  have "run_threads (kernMapToBoolean P idata) [0..<Suc m] bools = kernMapToBoolean P idata m ?b"
    using Suc.IH by (rule run_threads_snoc)
  also have "\<dots> = Inr (map (\<lambda>j. if j < Suc m then to_bool (idata ! j) else bools ! j) [0..<P])"
  proof (cases "P \<le> m")
    case True
    then have "?b = map (\<lambda>j. if j < Suc m then to_bool (idata ! j) else bools ! j) [0..<P]"
      by simp
    with True show ?thesis by (simp add: kernMapToBoolean_def)
  next
    case False
    have "?b[m := to_bool (idata ! m)]
            = map (\<lambda>j. if j < Suc m then to_bool (idata ! j) else bools ! j) [0..<P]"
      by (rule nth_equalityI) (auto simp add: nth_list_update less_Suc_eq)
    with False assms show ?thesis
      by (simp add: kernMapToBoolean_def load_def store_def thenr_def to_bool_def)
  qed
  finally show ?case .
qed

lemma grid_covers_all: "P \<le> fullBlocksPerGrid P * blockSize"
proof -
  have "P < (P + 127) div 128 * 128 + 128 - 127"
    by (simp add: algebra_simps)
  then show ?thesis by (simp add: fullBlocksPerGrid_def blockSize_def)
qed

lemma launch_kernMapToBoolean:
  assumes "length bools = P" "length idata = P"
  shows "launch (fullBlocksPerGrid P) (kernMapToBoolean P idata) bools = Inr (map to_bool idata)"
proof -
  have "map (\<lambda>j. if j < fullBlocksPerGrid P * blockSize then to_bool (idata ! j) else bools ! j) [0..<P]
          = map to_bool idata"
    using grid_covers_all [of P] assms(2) by (intro nth_equalityI) simp_all
  then show ?thesis
    unfolding launch_def run_kernMapToBoolean [OF assms] by simp
qed

lemma sum_list_to_bool: "sum_list (map to_bool xs) = of_nat (length (filter (\<lambda>v. v \<noteq> 0) xs))"
  by (induction xs) (simp_all add: to_bool_def)

lemma sum_list_zeros: "sum_list (replicate k (0 :: 'a::comm_monoid_add)) = 0"
  by (induction k) simp_all

lemma seg_padded_any:
  fixes xs :: "'a::comm_monoid_add list"
  assumes "c \<le> P" "length xs \<le> P"
  shows "seg (padded P xs) 0 c = sum_list (take c xs)"
proof -
  have "length (padded P xs) = P" using assms(2) by (rule length_padded)
  with assms(1) have "length (take c (padded P xs)) = c" by simp
  then have "sum_list (take c (padded P xs)) = (\<Sum>k = 0..<c. take c (padded P xs) ! k)"
    using sum_list_sum_nth [of "take c (padded P xs)"] by simp
  also have "\<dots> = seg (padded P xs) 0 c"
    unfolding seg_def by (intro sum.cong) simp_all
  finally have "seg (padded P xs) 0 c = sum_list (take c (padded P xs))" by simp
  also have "\<dots> = sum_list (take c xs)"
    by (simp add: padded_def sum_list_zeros)
  finally show ?thesis .
qed

lemma kept_before_mono: "c \<le> c' \<Longrightarrow> kept_before xs c \<le> kept_before xs c'"
proof -
  assume "c \<le> c'"
  then have "take c' xs = take c xs @ take (c' - c) (drop c xs)"
    using take_add [of c "c' - c" xs] by simp
  then show ?thesis by (simp add: kept_before_def)
qed

lemma kept_before_le: "kept_before xs c \<le> c"
  unfolding kept_before_def
  by (rule le_trans [OF length_filter_le]) simp

lemma kept_before_le_length: "kept_before xs c \<le> length xs"
  unfolding kept_before_def
  by (rule le_trans [OF length_filter_le]) simp

lemma kept_before_all: "length xs \<le> c \<Longrightarrow> kept_before xs c = length (filter (\<lambda>v. v \<noteq> 0) xs)"
  by (simp add: kept_before_def)

lemma kept_before_Suc:
  "c < length xs \<Longrightarrow> kept_before xs (Suc c) = kept_before xs c + (if xs ! c \<noteq> 0 then 1 else 0)"
  by (simp add: kept_before_def take_Suc_conv_app_nth)

lemma filter_nth_kept:
  assumes "c < length xs" "xs ! c \<noteq> 0"
  shows "filter (\<lambda>v. v \<noteq> 0) xs ! kept_before xs c = xs ! c"
proof -
  have "filter (\<lambda>v. v \<noteq> 0) xs = filter (\<lambda>v. v \<noteq> 0) (take c xs @ xs ! c # drop (Suc c) xs)"
    by (simp only: id_take_nth_drop [OF assms(1), symmetric])
  also have "\<dots> = filter (\<lambda>v. v \<noteq> 0) (take c xs) @ xs ! c # filter (\<lambda>v. v \<noteq> 0) (drop (Suc c) xs)"
    using assms(2) by simp
  finally show ?thesis by (simp add: kept_before_def nth_append)
qed

lemma trunc_trunc:
  assumes "d \<le> e"
  shows "(b div 2 ^ d * 2 ^ d) div 2 ^ e = b div (2 ^ e :: nat)"
proof -
  from assms obtain r where e: "e = d + r" using le_Suc_ex by blast
  have "(b div 2 ^ d * 2 ^ d) div (2 ^ d * 2 ^ r) = (b div 2 ^ d * 2 ^ d) div 2 ^ d div (2 ^ r :: nat)"
    by (rule div_mult2_eq)
  also have "\<dots> = b div 2 ^ d div 2 ^ r" by simp
  also have "\<dots> = b div (2 ^ d * 2 ^ r)" by (rule div_mult2_eq [symmetric])
  finally show ?thesis by (simp add: e power_add)
qed

lemma cut_at_ge_trunc:
  "2 ^ d dvd b \<Longrightarrow> d \<le> e \<Longrightarrow> b div 2 ^ e * 2 ^ e \<le> Suc n \<Longrightarrow> b div 2 ^ e * 2 ^ e \<le> cut_at n d b"
proof (induction n d b rule: cut_at.induct)
  case (1 n d b)
  show ?case
  proof (cases "b \<le> Suc n")
    case True
    then show ?thesis by (simp add: cut_small)
  next
    case False
    have "e \<noteq> d"
    proof
      assume "e = d"
      with "1.prems"(1) have "b div 2 ^ e * 2 ^ e = b" by simp
      with "1.prems"(3) False show False by simp
    qed
    with "1.prems"(2) have de: "Suc d \<le> e" by simp
    let ?b = "b div 2 ^ Suc d * 2 ^ Suc d"
    have "?b div 2 ^ e * 2 ^ e \<le> cut_at n (Suc d) ?b"
      using False de "1.prems"(3) by (intro "1.IH") (simp_all add: trunc_trunc)
    then have "b div 2 ^ e * 2 ^ e \<le> cut_at n (Suc d) ?b"
      using de by (simp add: trunc_trunc)
    with False show ?thesis by (subst cut_at.simps) simp
  qed
qed

lemma cut_at_is_trunc: "2 ^ d dvd b \<Longrightarrow> \<exists>e. cut_at n d b = b div 2 ^ e * 2 ^ e"
proof (induction n d b rule: cut_at.induct)
  case (1 n d b)
  show ?case
  proof (cases "b \<le> Suc n")
    case True
    with "1.prems" have "cut_at n d b = b div 2 ^ d * 2 ^ d" by (simp add: cut_small)
    then show ?thesis ..
  next
    case False
    let ?b = "b div 2 ^ Suc d * 2 ^ Suc d"
    from False have "\<exists>e. cut_at n (Suc d) ?b = ?b div 2 ^ e * 2 ^ e"
      by (intro "1.IH") simp_all
    then obtain e where e: "cut_at n (Suc d) ?b = ?b div 2 ^ e * 2 ^ e" ..
    show ?thesis
    proof (cases "Suc d \<le> e")
      case True
      with e have "cut_at n (Suc d) ?b = b div 2 ^ e * 2 ^ e" by (simp add: trunc_trunc)
      with False have "cut_at n d b = b div 2 ^ e * 2 ^ e" by (subst cut_at.simps) simp
      then show ?thesis ..
    next
      case le: False
      then have "(2::nat) ^ e dvd 2 ^ Suc d" by (intro le_imp_power_dvd) simp
      then have "2 ^ e dvd ?b" by (rule dvd_mult)
      with e have "cut_at n (Suc d) ?b = ?b" by simp
      with False have "cut_at n d b = b div 2 ^ Suc d * 2 ^ Suc d" by (subst cut_at.simps) simp
      then show ?thesis ..
    qed
  qed
qed

lemma cut_at_last_le:
  assumes "n < t" "t \<le> q"
  shows "cut_at n 0 q \<le> cut_at n 0 t"
proof -
  obtain e where e: "cut_at n 0 q = q div 2 ^ e * 2 ^ e"
    using cut_at_is_trunc [of 0 q n] by auto
  let ?c = "q div 2 ^ e * 2 ^ e"
  have cn: "?c \<le> Suc n" using cut_bound [of n 0 q] e by simp
  with assms(1) have "?c \<le> t" by simp
  then have "?c div 2 ^ e \<le> t div 2 ^ e" by (rule div_le_mono)
  then have "q div 2 ^ e \<le> t div 2 ^ e" by simp
  moreover have "t div 2 ^ e \<le> q div 2 ^ e" using assms(2) by (rule div_le_mono)
  ultimately have "t div 2 ^ e * 2 ^ e = ?c" by simp
  with cn have "t div 2 ^ e * 2 ^ e \<le> cut_at n 0 t"
    by (intro cut_at_ge_trunc) simp_all
  with \<open>t div 2 ^ e * 2 ^ e = ?c\<close> e show ?thesis by simp
qed

lemma dest_logical: "t \<le> Suc (length xs) \<Longrightarrow> dest xs t = kept_before xs t"
  by (simp add: dest_def cut_small)

lemma dest_le: "dest xs t \<le> t"
  unfolding dest_def by (rule le_trans [OF kept_before_le cut_le])

lemma dest_le_length: "dest xs t \<le> length xs"
  unfolding dest_def by (rule kept_before_le_length)

lemma dest_padding_ge:
  assumes "length xs \<le> t" "t \<le> q"
  shows "dest xs q \<le> dest xs t"
proof (cases "length xs = t")
  case True
  then have "dest xs t = length (filter (\<lambda>v. v \<noteq> 0) xs)"
    by (simp add: dest_logical kept_before_all)
  moreover have "dest xs q \<le> length (filter (\<lambda>v. v \<noteq> 0) xs)"
    unfolding dest_def kept_before_def
    by (metis append_take_drop_id filter_append le_add1 length_append)
  ultimately show ?thesis by simp
next
  case False
  with assms have "length xs < t" by simp
  then have "cut_at (length xs) 0 q \<le> cut_at (length xs) 0 t"
    using assms(2) by (rule cut_at_last_le)
  then show ?thesis unfolding dest_def by (rule kept_before_mono)
qed

lemma sweeps_to_bool:
  assumes "length xs \<le> 2 ^ L" "t < 2 ^ L"
  shows "sweeps L (length xs) (padded (2 ^ L) (map to_bool xs)) ! t = of_nat (dest xs t)"
proof -
  have "sweeps L (length (map to_bool xs)) (padded (2 ^ L) (map to_bool xs)) ! t
          = seg (padded (2 ^ L) (map to_bool xs)) 0 (cut_at (length (map to_bool xs)) 0 t)"
    using assms by (intro sweeps_nth) simp_all
  also have "\<dots> = seg (padded (2 ^ L) (map to_bool xs)) 0 (cut_at (length xs) 0 t)"
    by simp
  also have "\<dots> = sum_list (take (cut_at (length xs) 0 t) (map to_bool xs))"
    using assms cut_le [of "length xs" 0 t] by (intro seg_padded_any) simp_all
  also have "\<dots> = of_nat (dest xs t)"
    by (simp add: take_map sum_list_to_bool dest_def kept_before_def)
  finally show ?thesis by simp
qed

lemma scatter_upto_0 [simp]: "scatter_upto idata dst 0 odata = odata"
  by (simp add: scatter_upto_def)

lemma scatter_upto_Suc:
  "scatter_upto idata dst (Suc m) odata =
     (if idata ! m \<noteq> 0 then (scatter_upto idata dst m odata)[dst m := idata ! m]
      else scatter_upto idata dst m odata)"
  by (simp add: scatter_upto_def)

lemma length_scatter_upto [simp]: "length (scatter_upto idata dst m odata) = length odata"
  by (induction m) (simp_all add: scatter_upto_Suc)

lemma sint_of_nat32: "k < 2 ^ 31 \<Longrightarrow> sint (of_nat k :: i32) = int k"
proof -
  assume "k < 2 ^ 31"
  then have "int k < int (2 ^ 31)" by (simp only: of_nat_less_iff)
  then have "int k < 2 ^ 31" by simp
  moreover have "- (2 ^ 31) \<le> int k" by simp
  ultimately have "signed_take_bit 31 (int k) = int k" by (intro signed_take_bit_int_eq_self)
  then show ?thesis by (simp add: signed_of_nat)
qed

lemma to_bool_1: "to_bool v = 1 \<longleftrightarrow> v \<noteq> 0"
  by (simp add: to_bool_def)

lemma run_kernScatter:
  assumes "length odata = P" "length idata = P" "length indices = P"
    and "\<And>t. t < P \<Longrightarrow> indices ! t = of_nat (dst t)"
    and "\<And>t. t < P \<Longrightarrow> dst t < P"
    and "P \<le> 2 ^ 25"
  shows "run_threads (kernScatter P idata (map to_bool idata) indices) [0..<m] odata
           = Inr (scatter_upto idata dst (min m P) odata)"
proof (induction m)
  case 0
  show ?case by simp
next
  case (Suc m)
  let ?O = "scatter_upto idata dst (min m P) odata"
  have "run_threads (kernScatter P idata (map to_bool idata) indices) [0..<Suc m] odata
          = kernScatter P idata (map to_bool idata) indices m ?O"
    using Suc.IH by (rule run_threads_snoc)
  also have "\<dots> = Inr (scatter_upto idata dst (min (Suc m) P) odata)"
  proof (cases "P \<le> m")
    case True
    then have "min (Suc m) P = min m P" by simp
    with True show ?thesis by (simp add: kernScatter_def)
  next
    case False
    then have m: "m < P" by simp
    then have mins: "min m P = m" "min (Suc m) P = Suc m" by simp_all
    have "(2::nat) ^ 25 < 2 ^ 31" by simp
    with assms(5) [OF m] assms(6) have "dst m < 2 ^ 31" by linarith
    then have s: "sint (indices ! m) = int (dst m)"
      using assms(4) [OF m] by (simp add: sint_of_nat32)
    show ?thesis
    proof (cases "idata ! m = 0")
      case True
      with m assms show ?thesis
        unfolding mins by (simp add: kernScatter_def load_def thenr_def to_bool_def scatter_upto_Suc)
    next
      case False
      with m assms(1-3) assms(5) [OF m] s show ?thesis
        unfolding mins
        by (simp add: kernScatter_def load_def store_def thenr_def to_bool_1 scatter_upto_Suc)
    qed
  qed
  finally show ?case .
qed

lemma launch_kernScatter:
  assumes "length odata = P" "length idata = P" "length indices = P"
    and "\<And>t. t < P \<Longrightarrow> indices ! t = of_nat (dst t)"
    and "\<And>t. t < P \<Longrightarrow> dst t < P"
    and "P \<le> 2 ^ 25"
  shows "launch (fullBlocksPerGrid P) (kernScatter P idata (map to_bool idata) indices) odata
           = Inr (scatter_upto idata dst P odata)"
proof -
  have "run_threads (kernScatter P idata (map to_bool idata) indices)
          [0..<fullBlocksPerGrid P * blockSize] odata
        = Inr (scatter_upto idata dst (min (fullBlocksPerGrid P * blockSize) P) odata)"
    using assms by (rule run_kernScatter)
  then show ?thesis
    using grid_covers_all [of P] by (simp add: launch_def min_absorb2)
qed

lemma scatter_upto_kept:
  assumes "length odata = P" "length xs \<le> P" "m \<le> P"
    and "s < kept_before xs m"
    and "\<And>t. length xs \<le> t \<Longrightarrow> t < m \<Longrightarrow> (xs @ pad) ! t \<noteq> 0 \<Longrightarrow> dest xs t \<noteq> s"
  shows "scatter_upto (xs @ pad) (dest xs) m odata ! s = filter (\<lambda>v. v \<noteq> 0) xs ! s"
  using assms(3-5)
proof (induction m)
  case 0
  then show ?case by (simp add: kept_before_def)
next
  case (Suc m)
  let ?O = "scatter_upto (xs @ pad) (dest xs) m odata"
  have sP: "s < P"
    using Suc.prems(2) kept_before_le_length [of xs "Suc m"] assms(2) by simp
  show ?case
  proof (cases "m < length xs")
    case True
    then have cell: "(xs @ pad) ! m = xs ! m" by (simp add: nth_append)
    have d: "dest xs m = kept_before xs m" using True by (simp add: dest_logical)
    show ?thesis
    proof (cases "xs ! m \<noteq> 0 \<and> s = kept_before xs m")
      case True
      with \<open>m < length xs\<close> sP assms(1) show ?thesis
        by (simp add: scatter_upto_Suc cell d filter_nth_kept)
    next
      case False
      then have "s < kept_before xs m"
        using Suc.prems(2) True by (auto simp add: kept_before_Suc split: if_splits)
      then have "?O ! s = filter (\<lambda>v. v \<noteq> 0) xs ! s"
        using Suc.prems by (intro Suc.IH) simp_all
      with False show ?thesis
        by (auto simp add: scatter_upto_Suc cell d)
    qed
  next
    case False
    then have "kept_before xs (Suc m) = kept_before xs m"
      by (simp add: kept_before_all)
    then have "s < kept_before xs m" using Suc.prems(2) by simp
    then have IH: "?O ! s = filter (\<lambda>v. v \<noteq> 0) xs ! s"
      using Suc.prems by (intro Suc.IH) simp_all
    show ?thesis
    proof (cases "(xs @ pad) ! m = 0")
      case True
      with IH show ?thesis by (simp add: scatter_upto_Suc)
    next
      case nz: False
      with False have "dest xs m \<noteq> s" by (intro Suc.prems(3)) simp_all
      with nz IH show ?thesis by (simp add: scatter_upto_Suc)
    qed
  qed
qed

lemma length_cudaMalloc [simp]: "length (cudaMalloc j P) = P"
  by (simp add: cudaMalloc_def)

lemma length_dev_input: "length xs \<le> P \<Longrightarrow> length (dev_input junk P xs) = P"
  by (simp add: dev_input_def)

lemma dev_input_padding:
  "length xs \<le> t \<Longrightarrow> t < P \<Longrightarrow> dev_input junk P xs ! t = junk 0 t"
  by (simp add: dev_input_def nth_append cudaMalloc_def)

lemma compact_indices_result:
  assumes n: "length idata = n" and bound: "n \<le> 2 ^ 25"
  defines "L \<equiv> ilog2ceil (int n)"
  shows "compact_indices junk (int n) idata
           = Inr (dev_input junk (2 ^ L) idata, map to_bool (dev_input junk (2 ^ L) idata),
                  sweeps L n (padded (2 ^ L) (map to_bool idata)))"
proof -
  have L: "L \<le> 25" and nP: "n \<le> 2 ^ L"
    unfolding L_def using bound by (rule padded_size)+
  let ?P = "(2::nat) ^ L"
  let ?I = "dev_input junk ?P idata"
  have n62: "n < 2 ^ 62" using bound by simp
  have P62: "?P < 2 ^ 62" using L by (intro power_strict_increasing) simp_all
  have lenI: "length ?I = ?P" using nP n by (simp add: length_dev_input)
  have copy: "cudaMemcpy (cudaMalloc (junk 0) ?P) idata (size_bytes (int n)) = Inr ?I"
    unfolding size_bytes_nat [OF n62] dev_input_def
    using nP n cudaMemcpy_cells [of n "cudaMalloc (junk 0) ?P" idata] by simp
  have mapb: "launch (fullBlocksPerGrid ?P) (kernMapToBoolean ?P ?I) (cudaMalloc (junk 2) ?P)
                = Inr (map to_bool ?I)"
    using lenI by (intro launch_kernMapToBoolean) simp_all
  have copy2: "cudaMemcpy (cudaMalloc (junk 3) ?P) (map to_bool ?I) (size_bytes (int ?P))
                = Inr (map to_bool ?I)"
    unfolding size_bytes_nat [OF P62]
    using cudaMemcpy_cells [of ?P "cudaMalloc (junk 3) ?P" "map to_bool ?I"] lenI by simp
  have tk: "take n (map to_bool ?I) = map to_bool idata"
    using n by (simp add: dev_input_def take_map)
  have "compact_indices junk (int n) idata =
      thenr (Inr ?I) (\<lambda>dev_idata.
      thenr (launch (fullBlocksPerGrid ?P) (kernMapToBoolean ?P dev_idata) (cudaMalloc (junk 2) ?P))
        (\<lambda>bool_data.
      thenr (cudaMemcpy (cudaMalloc (junk 3) ?P) bool_data (size_bytes (int ?P))) (\<lambda>indices_data.
      thenr (cudaMemset0 indices_data (int n) (size_bytes (int ?P - int n))) (\<lambda>indices_data.
      thenr (upsweep_loop (ilog2ceil (int ?P)) 0 (int n) ?P indices_data)
        (\<lambda>(neededThreads, indices_data).
      thenr (cudaMemset0 indices_data (int ?P - 1) (size_bytes 1)) (\<lambda>indices_data.
      thenr (downsweep_loop (int (ilog2ceil (int ?P)) - 1) (int ?P) neededThreads indices_data)
        (\<lambda>indices_data. Inr (dev_idata, bool_data, indices_data))))))))"
    unfolding compact_indices_def compact_indices_body_def Let_def L_def [symmetric] copy ..
  also have "\<dots> =
      thenr (cudaMemset0 (map to_bool ?I) (int n) (size_bytes (int ?P - int n))) (\<lambda>indices_data.
      thenr (upsweep_loop (ilog2ceil (int ?P)) 0 (int n) ?P indices_data)
        (\<lambda>(neededThreads, indices_data).
      thenr (cudaMemset0 indices_data (int ?P - 1) (size_bytes 1)) (\<lambda>indices_data.
      thenr (downsweep_loop (int (ilog2ceil (int ?P)) - 1) (int ?P) neededThreads indices_data)
        (\<lambda>indices_data. Inr (?I, map to_bool ?I, indices_data)))))"
    by (simp only: thenr_def sum.case mapb copy2)
  also have "\<dots> = Inr (?I, map to_bool ?I, sweeps L n (padded ?P (take n (map to_bool ?I))))"
    using lenI nP by (intro sweep_block [OF L]) simp_all
  finally show ?thesis by (simp only: tk)
qed

lemma length_dev_output [simp]: "length (dev_output junk P xs) = P"
  by (simp add: dev_output_def)

lemma compact_result:
  assumes n: "length idata = n" and bound: "n \<le> 2 ^ 25"
  defines "L \<equiv> ilog2ceil (int n)"
  shows "compact junk (int n) idata
           = Inr (take n (dev_output junk (2 ^ L) idata), of_nat (dest idata (2 ^ L - 1)))"
proof -
  have L: "L \<le> 25" and nP: "n \<le> 2 ^ L"
    unfolding L_def using bound by (rule padded_size)+
  let ?P = "(2::nat) ^ L"
  let ?I = "dev_input junk ?P idata"
  let ?ind = "sweeps L n (padded ?P (map to_bool idata))"
  have n62: "n < 2 ^ 62" using bound by simp
  have lenI: "length ?I = ?P" using nP n by (simp add: length_dev_input)
  have lenind: "length ?ind = ?P" using nP n by (simp add: length_padded)
  have P25: "?P \<le> 2 ^ 25" using L by (intro power_increasing) simp_all
  have ind: "?ind ! t = of_nat (dest idata t)" if "t < ?P" for t
    using sweeps_to_bool [of idata L t] nP n that by simp
  have dl: "dest idata t < ?P" if "t < ?P" for t
    using dest_le [of idata t] that by simp
  have scat: "launch (fullBlocksPerGrid ?P) (kernScatter ?P ?I (map to_bool ?I) ?ind)
                (cudaMalloc (junk 1) ?P) = Inr (dev_output junk ?P idata)"
    unfolding dev_output_def
    using _ lenI lenind ind dl P25 by (rule launch_kernScatter) simp
  have out: "cudaMemcpy (replicate n 0) (dev_output junk ?P idata) (size_bytes (int n))
               = Inr (take n (dev_output junk ?P idata))"
    unfolding size_bytes_nat [OF n62]
    using nP cudaMemcpy_cells [of n "replicate n 0" "dev_output junk ?P idata"] by simp
  have last: "load ?ind (?P - 1) = Inr (of_nat (dest idata (?P - 1)))"
    using ind [of "?P - 1"] lenind by (simp add: load_def)
  have ind_body: "compact_indices_body ?P junk (int n) idata
                    = Inr (?I, map to_bool ?I, ?ind)"
    using compact_indices_result [OF n bound, of junk]
    unfolding compact_indices_def L_def [symmetric] .
  show ?thesis
    unfolding compact_def compact_body_def Let_def L_def [symmetric] ind_body
    by (simp only: thenr_def sum.case prod.case scat nat_int out last)
qed

lemma kept_before_le_total: "kept_before xs c \<le> length (filter (\<lambda>v. v \<noteq> 0) xs)"
proof -
  have "kept_before xs c \<le> kept_before xs (max c (length xs))"
    by (rule kept_before_mono) simp
  then show ?thesis by (simp add: kept_before_all)
qed

lemma dest_le_total: "dest xs t \<le> length (filter (\<lambda>v. v \<noteq> 0) xs)"
  unfolding dest_def by (rule kept_before_le_total)

lemma dev_output_kept:
  assumes "length xs \<le> P" and "s < length (filter (\<lambda>v. v \<noteq> 0) xs)"
    and "\<And>t. length xs \<le> t \<Longrightarrow> t < P \<Longrightarrow> junk 0 t \<noteq> 0 \<Longrightarrow> dest xs t \<noteq> s"
  shows "dev_output junk P xs ! s = filter (\<lambda>v. v \<noteq> 0) xs ! s"
  unfolding dev_output_def dev_input_def
proof (rule scatter_upto_kept)
  show "length (cudaMalloc (junk 1) P) = P" by simp
  show "length xs \<le> P" by fact
  show "P \<le> P" by simp
  show "s < kept_before xs P" using assms(1,2) by (simp add: kept_before_all)
  show "dest xs t \<noteq> s"
    if "length xs \<le> t" "t < P" "(xs @ drop (length xs) (cudaMalloc (junk 0) P)) ! t \<noteq> 0" for t
    using that assms(3) [of t] dev_input_padding [of xs t P junk]
    by (simp add: dev_input_def)
qed

lemma dev_output_prefix:
  assumes "length xs \<le> P" and "s < dest xs (P - 1)"
  shows "dev_output junk P xs ! s = filter (\<lambda>v. v \<noteq> 0) xs ! s"
proof (rule dev_output_kept)
  show "length xs \<le> P" by fact
  show "s < length (filter (\<lambda>v. v \<noteq> 0) xs)"
    using assms(2) dest_le_total [of xs "P - 1"] by simp
  show "dest xs t \<noteq> s" if "length xs \<le> t" "t < P" for t
  proof -
    from that have "dest xs (P - 1) \<le> dest xs t" by (intro dest_padding_ge) simp_all
    with assms(2) show ?thesis by simp
  qed
qed

lemma take_dev_output:
  assumes "length xs \<le> P"
  shows "take (dest xs (P - 1)) (take (length xs) (dev_output junk P xs))
           = take (dest xs (P - 1)) (filter (\<lambda>v. v \<noteq> 0) xs)"
proof (rule nth_equalityI)
  have a: "dest xs (P - 1) \<le> length xs" by (rule dest_le_length)
  have b: "dest xs (P - 1) \<le> length (filter (\<lambda>v. v \<noteq> 0) xs)" by (rule dest_le_total)
  show "length (take (dest xs (P - 1)) (take (length xs) (dev_output junk P xs)))
          = length (take (dest xs (P - 1)) (filter (\<lambda>v. v \<noteq> 0) xs))"
    using a b assms by simp
  fix s assume "s < length (take (dest xs (P - 1)) (take (length xs) (dev_output junk P xs)))"
  then have s: "s < dest xs (P - 1)" by simp
  with a have "s < length xs" by simp
  with s show "take (dest xs (P - 1)) (take (length xs) (dev_output junk P xs)) ! s
          = take (dest xs (P - 1)) (filter (\<lambda>v. v \<noteq> 0) xs) ! s"
    using dev_output_prefix [OF assms s] by simp
qed

lemma sint_dest:
  assumes "length xs \<le> 2 ^ 25"
  shows "sint (of_nat (dest xs t) :: i32) = int (dest xs t)"
proof -
  have "(2::nat) ^ 25 < 2 ^ 31" by simp
  with dest_le_length [of xs t] assms have "dest xs t < 2 ^ 31" by linarith
  then show ?thesis by (rule sint_of_nat32)
qed

text \<open>When \<open>n\<close> is a power of two there is no padding.\<close>

lemma ilog2ceil_pow: "ilog2ceil (int (2 ^ k)) = k"
  by (rule ilog2ceil_int_power)

lemma dest_last_pow: "length xs = 2 ^ k \<Longrightarrow> dest xs (2 ^ k - 1) = length (filter (\<lambda>v. v \<noteq> 0) (butlast xs))"
  by (simp add: dest_logical kept_before_def butlast_conv_take)

lemma dev_output_all_kept:
  assumes "length xs = P" "\<forall>v\<in>set xs. v \<noteq> 0"
  shows "take (length xs) (dev_output junk P xs) = xs"
proof (rule nth_equalityI)
  show "length (take (length xs) (dev_output junk P xs)) = length xs"
    using assms(1) by simp
  have f: "filter (\<lambda>v. v \<noteq> 0) xs = xs" using assms(2) by (simp add: filter_id_conv)
  fix s assume "s < length (take (length xs) (dev_output junk P xs))"
  then have s: "s < length xs" by simp
  have "dev_output junk P xs ! s = filter (\<lambda>v. v \<noteq> 0) xs ! s"
    using assms(1) s by (intro dev_output_kept) (simp_all add: f)
  with s show "take (length xs) (dev_output junk P xs) ! s = xs ! s"
    by (simp add: f)
qed

lemma size_bytes_negative:
  assumes "- (2 ^ 31) \<le> n" "n < 0"
  shows "size_bytes n div 4 = nat (2 ^ 62 + n)"
proof -
  have "(word_of_int n :: 64 word) * 4 = word_of_int (4 * n)" by (simp add: mult.commute)
  then have "size_bytes n = nat (uint (word_of_int (4 * n) :: 64 word))"
    by (simp only: size_bytes_def unat_eq_nat_uint)
  also have "uint (word_of_int (4 * n) :: 64 word) = (4 * n) mod 2 ^ 64"
    by (simp only: uint_word_of_int) simp
  also have "(4 * n) mod 2 ^ 64 = 2 ^ 64 + 4 * n"
  proof -
    have "(4 * n + 2 ^ 64) mod 2 ^ 64 = 4 * n + 2 ^ 64"
      using assms by (intro mod_pos_pos_trivial) simp_all
    moreover have "(4 * n + 2 ^ 64) mod 2 ^ 64 = (4 * n) mod (2 ^ 64 :: int)"
      by (rule mod_add_self2)
    ultimately show ?thesis by simp
  qed
  finally have "size_bytes n = nat (2 ^ 64 + 4 * n)" .
  moreover have "nat (2 ^ 64 + 4 * n) = 4 * nat (2 ^ 62 + n)"
    using assms by simp
  ultimately show ?thesis by simp
qed

lemma negative_copy:
  assumes "- (2 ^ 31) \<le> n" "n < 0" "P < 2 ^ 31"
  shows "cudaMemcpy (cudaMalloc j P) idata (size_bytes n) = Inl (OutOfRange (nat (2 ^ 62 + n)) P)"
proof -
  have "P < nat (2 ^ 62 + n)" using assms by simp
  then show ?thesis
    by (simp add: cudaMemcpy_def Let_def size_bytes_negative [OF assms(1,2)])
qed

lemma negative_size_body:
  assumes "- (2 ^ 31) \<le> n" "n < 0" "P < 2 ^ 31"
  shows "scan_body P junk n idata = Inl (OutOfRange (nat (2 ^ 62 + n)) P)"
    and "compact_body P junk n idata = Inl (OutOfRange (nat (2 ^ 62 + n)) P)"
proof -
  show "scan_body P junk n idata = Inl (OutOfRange (nat (2 ^ 62 + n)) P)"
    unfolding scan_body_def Let_def
    by (simp only: negative_copy [OF assms] thenr_def sum.case)
  have "compact_indices_body P junk n idata = Inl (OutOfRange (nat (2 ^ 62 + n)) P)"
    unfolding compact_indices_body_def Let_def
    by (simp only: negative_copy [OF assms] thenr_def sum.case)
  then show "compact_body P junk n idata = Inl (OutOfRange (nat (2 ^ 62 + n)) P)"
    unfolding compact_body_def Let_def by (simp only: thenr_def sum.case)
qed

lemma negative_size:
  assumes "- (2 ^ 31) \<le> n" "n < 0"
  shows "scan junk n idata = Inl (OutOfRange (nat (2 ^ 62 + n)) 1)"
    and "compact junk n idata = Inl (OutOfRange (nat (2 ^ 62 + n)) 1)"
proof -
  have L: "ilog2ceil n = 0" using assms(2) by (intro ilog2ceil_le1) simp
  have P: "(1::nat) < 2 ^ 31" by simp
  show "scan junk n idata = Inl (OutOfRange (nat (2 ^ 62 + n)) 1)"
    unfolding scan_def L power_0 by (rule negative_size_body [OF assms P])
  show "compact junk n idata = Inl (OutOfRange (nat (2 ^ 62 + n)) 1)"
    unfolding compact_def L power_0 by (rule negative_size_body [OF assms P])
qed

lemma indices_logical:
  assumes "length xs = n" "n \<le> 2 ^ 25" "i < n"
  shows "sint (sweeps (ilog2ceil (int n)) n (padded (2 ^ ilog2ceil (int n)) (map to_bool xs)) ! i)
           = int (kept_before xs i)"
proof -
  have nP: "n \<le> 2 ^ ilog2ceil (int n)" using assms(2) by (rule padded_size)
  with assms have "sweeps (ilog2ceil (int n)) (length xs) (padded (2 ^ ilog2ceil (int n)) (map to_bool xs)) ! i
      = of_nat (dest xs i)"
    by (intro sweeps_to_bool) simp_all
  moreover have "dest xs i = kept_before xs i"
    using assms(1,3) by (intro dest_logical) simp
  moreover have "sint (of_nat (dest xs i) :: i32) = int (dest xs i)"
    using assms(1,2) by (intro sint_dest) simp
  ultimately show ?thesis using assms(1) by simp
qed

lemma length_up_node [simp]: "length (up_node d n m xs) = length xs"
  by (simp add: up_node_def)

lemma length_down_node [simp]: "length (down_node d m xs) = length xs"
  by (simp add: down_node_def)

lemma kernUpsweep_node:
  assumes wrap: "Suc m * 2 ^ Suc d \<le> 2 ^ 32" and n32: "n < 2 ^ 32"
    and dvd: "2 ^ Suc d dvd length xs" and n: "n \<le> length xs"
  shows "kernUpsweep d (int n) m xs = Inr (up_node d n m xs)"
proof (cases "n < rightIdx d m")
  case True
  then show ?thesis
    by (simp add: kernUpsweep_nat [OF wrap n32] up_node_def)
next
  case False
  then have "rightIdx d m \<le> length xs" using n by simp
  with dvd have r: "rightIdx d m < length xs" by (rule rightIdx_in_buffer)
  with leftIdx_less [of d m] have l: "leftIdx d m < length xs" by simp
  from False r l show ?thesis
    by (simp add: kernUpsweep_nat [OF wrap n32] up_node_def load_def store_def thenr_def)
qed

lemma kernDownsweep_node:
  assumes wrap: "Suc m * 2 ^ Suc d \<le> 2 ^ 32" and n32: "length xs < 2 ^ 32"
    and dvd: "2 ^ Suc d dvd length xs"
  shows "kernDownsweep d (int (length xs)) m xs = Inr (down_node d m xs)"
proof (cases "length xs < rightIdx d m")
  case True
  then show ?thesis
    by (simp add: kernDownsweep_nat [OF wrap n32] down_node_def)
next
  case False
  then have "rightIdx d m \<le> length xs" by simp
  with dvd have r: "rightIdx d m < length xs" by (rule rightIdx_in_buffer)
  with leftIdx_less [of d m] have l: "leftIdx d m < length xs" by simp
  have lr: "leftIdx d m \<noteq> rightIdx d m"
    using leftIdx_less [of d m] by simp
  from False r l lr show ?thesis
    by (simp add: kernDownsweep_nat [OF wrap n32] down_node_def load_def store_def thenr_def)
qed

text \<open>As long as no index wraps, the threads of one launch touch disjoint pairs of cells.
  So a launch of either sweep kernel gives the same buffer for every order in which its
  threads run; \<open>launch\<close> takes them in ascending order.\<close>

lemma nodes_apart:
  assumes "a < b"
  shows "rightIdx d a < leftIdx d b"
proof -
  from assms have "Suc a \<le> b" by simp
  then have "Suc a * 2 ^ Suc d \<le> b * 2 ^ Suc d" by (rule mult_le_mono1)
  with rightIdx_lt [of d a] leftIdx_ge [of b d] show ?thesis by linarith
qed

lemma nodes_disjoint:
  assumes "a \<noteq> b"
  shows "rightIdx d a \<noteq> rightIdx d b" and "leftIdx d a \<noteq> leftIdx d b"
    and "leftIdx d a \<noteq> rightIdx d b" and "rightIdx d a \<noteq> leftIdx d b"
proof -
  consider "a < b" | "b < a" using assms by linarith
  then have "rightIdx d a \<noteq> rightIdx d b \<and> leftIdx d a \<noteq> leftIdx d b
           \<and> leftIdx d a \<noteq> rightIdx d b \<and> rightIdx d a \<noteq> leftIdx d b"
  proof cases
    case 1
    from nodes_apart [OF 1, of d] leftIdx_less [of d a] leftIdx_less [of d b]
    show ?thesis by linarith
  next
    case 2
    from nodes_apart [OF 2, of d] leftIdx_less [of d a] leftIdx_less [of d b]
    show ?thesis by linarith
  qed
  then show "rightIdx d a \<noteq> rightIdx d b" and "leftIdx d a \<noteq> leftIdx d b"
    and "leftIdx d a \<noteq> rightIdx d b" and "rightIdx d a \<noteq> leftIdx d b"
    by simp_all
qed

lemma up_node_commute:
  "up_node d n a (up_node d n b xs) = up_node d n b (up_node d n a xs)"
proof (cases "a = b")
  case True
  then show ?thesis by simp
next
  case False
  note nodes_disjoint [OF False, of d]
  moreover have "leftIdx d a \<noteq> rightIdx d a" "leftIdx d b \<noteq> rightIdx d b"
    using leftIdx_less [of d a] leftIdx_less [of d b] by simp_all
  ultimately show ?thesis
    by (simp add: up_node_def list_update_swap [of "rightIdx d a" "rightIdx d b"])
qed

lemma down_node_commute:
  "down_node d a (down_node d b xs) = down_node d b (down_node d a xs)"
proof (cases "a = b")
  case True
  then show ?thesis by simp
next
  case False
  note dj = nodes_disjoint [OF False, of d]
  have lr: "leftIdx d a \<noteq> rightIdx d a" "leftIdx d b \<noteq> rightIdx d b"
    using leftIdx_less [of d a] leftIdx_less [of d b] by simp_all
  show ?thesis
  proof (rule nth_equalityI)
    show "length (down_node d a (down_node d b xs)) = length (down_node d b (down_node d a xs))"
      by simp
    fix j assume "j < length (down_node d a (down_node d b xs))"
    then have j: "j < length xs" by simp
    consider "j = leftIdx d a" | "j = rightIdx d a" | "j = leftIdx d b" | "j = rightIdx d b"
      | "j \<noteq> leftIdx d a" "j \<noteq> rightIdx d a" "j \<noteq> leftIdx d b" "j \<noteq> rightIdx d b"
      by blast
    then show "down_node d a (down_node d b xs) ! j = down_node d b (down_node d a xs) ! j"
    proof cases
      case 1
      with dj lr j show ?thesis by (simp add: down_node_def)
    next
      case 2
      with dj lr j show ?thesis by (simp add: down_node_def)
    next
      case 3
      with dj lr j show ?thesis by (simp add: down_node_def)
    next
      case 4
      with dj lr j show ?thesis by (simp add: down_node_def)
    next
      case 5
      with dj lr j show ?thesis by (simp add: down_node_def)
    qed
  qed
qed

lemma run_threads_fold:
  assumes "\<And>t s. t \<in> set ts \<Longrightarrow> length s = k \<Longrightarrow> kern t s = Inr (f t s)"
    and "\<And>t s. length (f t s) = length s"
    and "length s = k"
  shows "run_threads kern ts s = Inr (fold f ts s)"
  using assms
proof (induction ts arbitrary: s)
  case Nil
  show ?case by simp
next
  case (Cons t ts)
  have "kern t s = Inr (f t s)"
    using Cons.prems(3) by (intro Cons.prems(1)) simp_all
  moreover have "run_threads kern ts (f t s) = Inr (fold f ts (f t s))"
    using Cons.prems by (intro Cons.IH) simp_all
  ultimately show ?case by simp
qed

lemma launch_kernUpsweep_any_order:
  assumes perm: "mset ts = mset [0..<blocks * blockSize]"
    and wrap: "blocks * blockSize * 2 ^ Suc d \<le> 2 ^ 32" and n32: "n < 2 ^ 32"
    and dvd: "2 ^ Suc d dvd length xs" and n: "n \<le> length xs"
    and cover: "length xs \<le> blocks * blockSize * 2 ^ Suc d"
  shows "run_threads (kernUpsweep d (int n)) ts xs = Inr (up_level d n xs)"
proof -
  let ?T = "blocks * blockSize"
  have ts: "set ts = {0..<?T}"
    using mset_eq_setD [OF perm] by simp
  have k: "kernUpsweep d (int n) t s = Inr (up_node d n t s)"
    if "t < ?T" "length s = length xs" for t s
  proof -
    from that(1) have "Suc t \<le> ?T" by simp
    then have "Suc t * 2 ^ Suc d \<le> ?T * 2 ^ Suc d" by (rule mult_le_mono1)
    with wrap have "Suc t * 2 ^ Suc d \<le> 2 ^ 32" by linarith
    then show ?thesis
      using n32 dvd n that(2) by (intro kernUpsweep_node) simp_all
  qed
  have "run_threads (kernUpsweep d (int n)) ts xs = Inr (fold (up_node d n) ts xs)"
    using ts by (intro run_threads_fold [where k = "length xs"] k) simp_all
  also have "fold (up_node d n) ts xs = fold (up_node d n) [0..<?T] xs"
    using perm by (rule fold_permuted_eq [where P = "\<lambda>s. True"]) (simp_all add: up_node_commute)
  also have "Inr (fold (up_node d n) [0..<?T] xs) = run_threads (kernUpsweep d (int n)) [0..<?T] xs"
    by (rule sym, intro run_threads_fold [where k = "length xs"] k) simp_all
  also have "\<dots> = Inr (up_level d n xs)"
    using launch_kernUpsweep [OF wrap n32 dvd n cover] by (simp only: launch_def)
  finally show ?thesis .
qed

lemma launch_kernDownsweep_any_order:
  assumes perm: "mset ts = mset [0..<blocks * blockSize]"
    and wrap: "blocks * blockSize * 2 ^ Suc d \<le> 2 ^ 32" and n32: "length xs < 2 ^ 32"
    and dvd: "2 ^ Suc d dvd length xs"
    and cover: "length xs \<le> blocks * blockSize * 2 ^ Suc d"
  shows "run_threads (kernDownsweep d (int (length xs))) ts xs = Inr (down_level d xs)"
proof -
  let ?T = "blocks * blockSize"
  have ts: "set ts = {0..<?T}"
    using mset_eq_setD [OF perm] by simp
  have k: "kernDownsweep d (int (length xs)) t s = Inr (down_node d t s)"
    if "t < ?T" "length s = length xs" for t s
  proof -
    from that(1) have "Suc t \<le> ?T" by simp
    then have "Suc t * 2 ^ Suc d \<le> ?T * 2 ^ Suc d" by (rule mult_le_mono1)
    with wrap have "Suc t * 2 ^ Suc d \<le> 2 ^ 32" by linarith
    then have "kernDownsweep d (int (length s)) t s = Inr (down_node d t s)"
      using n32 dvd that(2) by (intro kernDownsweep_node) simp_all
    then show ?thesis by (simp only: that(2))
  qed
  have "run_threads (kernDownsweep d (int (length xs))) ts xs = Inr (fold (down_node d) ts xs)"
    using ts by (intro run_threads_fold [where k = "length xs"] k) simp_all
  also have "fold (down_node d) ts xs = fold (down_node d) [0..<?T] xs"
    using perm by (rule fold_permuted_eq [where P = "\<lambda>s. True"]) (simp_all add: down_node_commute)
  also have "Inr (fold (down_node d) [0..<?T] xs)
               = run_threads (kernDownsweep d (int (length xs))) [0..<?T] xs"
    by (rule sym, intro run_threads_fold [where k = "length xs"] k) simp_all
  also have "\<dots> = Inr (down_level d xs)"
    using launch_kernDownsweep [OF wrap n32 dvd cover] by (simp only: launch_def)
  finally show ?thesis .
qed

text \<open>Buffers of \<open>2 ^ 26\<close> cells (sizes above \<open>2 ^ 25\<close>). The top level of either sweep is
  launched with one block of 128 threads, and \<open>64 * 2 ^ 26\<close> is \<open>2 ^ 32\<close>: the \<open>unsigned\<close>
  index of thread \<open>t + 64\<close> is that of thread \<open>t\<close>, so the launch does the work of the
  threads 0 to 63 twice.\<close>

lemma top_index_alias:
  "(of_nat (tid + 64) :: u32) * push_bit (25 + 1) 1 = of_nat tid * push_bit (25 + 1) 1"
proof -
  have "(64 :: u32) * push_bit (25 + 1) 1 = 0" by simp
  moreover have "(of_nat (tid + 64) :: u32) = of_nat tid + 64" by simp
  ultimately show ?thesis by (simp only: distrib_right add_0_right)
qed

lemma kernUpsweep_alias:
  "kernUpsweep 25 n (tid + 64) data = kernUpsweep 25 n tid data"
  unfolding kernUpsweep_def Let_def top_index_alias ..

lemma kernDownsweep_alias:
  "kernDownsweep 25 n (tid + 64) data = kernDownsweep 25 n tid data"
  unfolding kernDownsweep_def Let_def top_index_alias ..

lemma run_threads_map:
  "run_threads kern (map f ts) s = run_threads (\<lambda>t. kern (f t)) ts s"
  by (induction ts arbitrary: s) (simp_all split: sum.splits)

lemma launch_aliased:
  assumes "\<And>t s. kern (t + 64) s = kern t s"
  shows "launch 1 kern s = thenr (run_threads kern [0..<64] s) (run_threads kern [0..<64])"
proof -
  have "[0..<128] = [0..<64] @ map (\<lambda>t. t + 64) [0..<64]"
    by (simp add: map_add_upt upt_add_eq_append [of 0 64 64, simplified])
  then have "run_threads kern [0..<128] s
      = thenr (run_threads kern [0..<64] s) (run_threads kern (map (\<lambda>t. t + 64) [0..<64]))"
    by (simp only: run_threads_append)
  also have "run_threads kern (map (\<lambda>t. t + 64) [0..<64]) = run_threads kern [0..<64]"
  proof -
    have "(\<lambda>t. kern (t + 64)) = kern" by (intro ext) (rule assms)
    then show ?thesis by (intro ext) (simp only: run_threads_map)
  qed
  finally show ?thesis by (simp add: launch_def blockSize_def)
qed

lemma up_level_top:
  assumes "length xs = 2 ^ Suc d" and "n < 2 ^ Suc d - 1"
  shows "up_level d n xs = xs"
proof (rule nth_equalityI)
  fix j assume "j < length (up_level d n xs)"
  then have j: "j < 2 ^ Suc d" using assms(1) by simp
  have "\<not> (2 ^ Suc d dvd Suc j \<and> j \<le> n)"
  proof
    assume a: "2 ^ Suc d dvd Suc j \<and> j \<le> n"
    then have "2 ^ Suc d \<le> Suc j" by (intro dvd_imp_le) simp_all
    with j a assms(2) show False by linarith
  qed
  with j assms(1) show "up_level d n xs ! j = xs ! j"
    by (auto simp add: up_level_nth)
qed simp

lemma launch_kernUpsweep_top:
  assumes len: "length xs = 2 ^ Suc 25" and n: "n < 2 ^ Suc 25 - 1"
  shows "launch 1 (kernUpsweep 25 (int n)) xs = Inr (up_level 25 n xs)"
proof -
  have run: "run_threads (kernUpsweep 25 (int n)) [0..<64] ys = Inr ys"
    if "length ys = 2 ^ Suc 25" for ys :: "i32 list"
  proof -
    have "run_threads (kernUpsweep 25 (int n)) [0..<64] ys = Inr (up_part 25 n 64 ys)"
      using that n by (intro run_up_part) (simp_all add: power_Suc)
    also have "up_part 25 n 64 ys = up_level 25 n ys"
      using that by (intro up_part_all) (simp add: power_Suc)
    also have "\<dots> = ys"
      using that n by (rule up_level_top)
    finally show ?thesis .
  qed
  have "launch 1 (kernUpsweep 25 (int n)) xs
          = thenr (run_threads (kernUpsweep 25 (int n)) [0..<64] xs)
              (run_threads (kernUpsweep 25 (int n)) [0..<64])"
    by (rule launch_aliased) (rule kernUpsweep_alias)
  also have "\<dots> = Inr xs"
    by (simp add: run [OF len] thenr_def)
  also have "Inr xs = (Inr (up_level 25 n xs) :: fault + i32 list)"
    using up_level_top [OF len n] by simp
  finally show ?thesis .
qed

lemma launch_kernDownsweep_top:
  assumes len: "length xs = 2 ^ Suc 25"
  shows "launch 1 (kernDownsweep 25 (int (length xs))) xs
           = Inr (down_level 25 (down_level 25 xs))"
proof -
  have run: "run_threads (kernDownsweep 25 (int (length ys))) [0..<64] ys = Inr (down_level 25 ys)"
    if "length ys = 2 ^ Suc 25" for ys :: "i32 list"
  proof -
    have "run_threads (kernDownsweep 25 (int (length ys))) [0..<64] ys = Inr (down_part 25 64 ys)"
      using that by (intro run_down_part) (simp_all add: power_Suc)
    also have "down_part 25 64 ys = down_level 25 ys"
      using that by (intro down_part_all) (simp add: power_Suc)
    finally show ?thesis .
  qed
  have "launch 1 (kernDownsweep 25 (int (length xs))) xs
          = thenr (run_threads (kernDownsweep 25 (int (length xs))) [0..<64] xs)
              (run_threads (kernDownsweep 25 (int (length xs))) [0..<64])"
    by (rule launch_aliased) (rule kernDownsweep_alias)
  also have "\<dots> = run_threads (kernDownsweep 25 (int (length (down_level 25 xs)))) [0..<64]
                      (down_level 25 xs)"
    by (simp only: run [OF len] thenr_def sum.case length_down_level)
  also have "\<dots> = Inr (down_level 25 (down_level 25 xs))"
    using len by (intro run) simp
  finally show ?thesis .
qed

lemma grid_no_wrap_low:
  assumes "d \<le> 24" "k + d \<le> 31"
  shows "fullBlocksPerGrid (2 ^ k) * blockSize * 2 ^ Suc d \<le> 2 ^ 32"
proof (cases "7 \<le> k")
  case True
  have "(2::nat) ^ k * 2 ^ Suc d = 2 ^ (k + Suc d)" by (simp only: power_add)
  also have "\<dots> \<le> 2 ^ 32" using assms by (intro power_increasing) simp_all
  finally show ?thesis using True by (simp add: grid_threads)
next
  case False
  have "(128::nat) * 2 ^ Suc d = 2 ^ (7 + Suc d)" by (simp only: power_add) simp
  also have "\<dots> \<le> 2 ^ 32" using assms by (intro power_increasing) simp_all
  finally show ?thesis using False by (simp add: grid_threads)
qed

lemma upsweep_loop_fold_top:
  assumes "length xs = 2 ^ 26" and n: "n < 2 ^ 26 - 1" and "d \<le> 26"
  shows "upsweep_loop 26 d (int n) (2 ^ (26 - d)) xs
           = Inr (1, fold (\<lambda>e. up_level e n) [d..<26] xs)"
  using assms(1,3)
proof (induction "26 - d" arbitrary: d xs)
  case 0
  then show ?case by (simp add: upsweep_loop.simps)
next
  case (Suc k)
  then have d: "d < 26" and k: "k = 26 - Suc d" by simp_all
  have n32: "n < 2 ^ 32" using n by simp
  have dvd: "2 ^ Suc d dvd length xs"
    using d by (simp only: Suc.prems) (intro le_imp_power_dvd, simp)
  have "launch (fullBlocksPerGrid (2 ^ (26 - d))) (kernUpsweep d (int n)) xs
          = Inr (up_level d n xs)"
  proof (cases "d = 25")
    case True
    have "fullBlocksPerGrid (2 ^ (26 - 25)) = 1"
      by (simp add: fullBlocksPerGrid_def blockSize_def)
    moreover have "launch 1 (kernUpsweep 25 (int n)) xs = Inr (up_level 25 n xs)"
      using Suc.prems(1) n by (intro launch_kernUpsweep_top) simp_all
    ultimately show ?thesis by (simp only: True)
  next
    case False
    with d have d24: "d \<le> 24" by simp
    show ?thesis
    proof (rule launch_kernUpsweep)
      show "fullBlocksPerGrid (2 ^ (26 - d)) * blockSize * 2 ^ Suc d \<le> 2 ^ 32"
        using d24 by (intro grid_no_wrap_low) simp_all
      show "length xs \<le> fullBlocksPerGrid (2 ^ (26 - d)) * blockSize * 2 ^ Suc d"
        unfolding Suc.prems(1) using d by (intro grid_covers) simp
    qed (use n32 dvd n Suc.prems in simp_all)
  qed
  moreover have "(2::nat) ^ (26 - d) div 2 = 2 ^ (26 - Suc d)"
  proof -
    have "26 - d = Suc (26 - Suc d)" using d by simp
    then show ?thesis by (simp add: power_Suc)
  qed
  moreover have "upsweep_loop 26 (Suc d) (int n) (2 ^ (26 - Suc d)) (up_level d n xs)
          = Inr (1, fold (\<lambda>e. up_level e n) [Suc d..<26] (up_level d n xs))"
    using k d Suc.prems by (intro Suc.hyps) simp_all
  ultimately show ?case
    using d by (subst upsweep_loop.simps) (simp add: thenr_def upt_conv_Cons)
qed

lemma downsweep_loop_fold_low:
  assumes "length xs = 2 ^ 26" "d \<le> 25"
  shows "downsweep_loop (int d - 1) (int (2 ^ 26)) (2 ^ (26 - d)) xs
           = Inr (fold down_level (rev [0..<d]) xs)"
  using assms
proof (induction d arbitrary: xs)
  case 0
  show ?case by (subst downsweep_loop.simps) simp
next
  case (Suc d)
  then have d: "d \<le> 24" by simp
  have len: "int (2 ^ 26) = int (length xs)" by (simp add: Suc.prems)
  have "launch (fullBlocksPerGrid (2 ^ (26 - Suc d))) (kernDownsweep d (int (length xs))) xs
          = Inr (down_level d xs)"
  proof (rule launch_kernDownsweep)
    show "fullBlocksPerGrid (2 ^ (26 - Suc d)) * blockSize * 2 ^ Suc d \<le> 2 ^ 32"
      using d by (intro grid_no_wrap_low) simp_all
    show "length xs \<le> fullBlocksPerGrid (2 ^ (26 - Suc d)) * blockSize * 2 ^ Suc d"
      unfolding Suc.prems(1) using d by (intro grid_covers) simp
    show "length xs < 2 ^ 32" by (simp add: Suc.prems)
    show "2 ^ Suc d dvd length xs"
      using d by (simp only: Suc.prems) (intro le_imp_power_dvd, simp)
  qed
  moreover have "(2::nat) ^ (26 - Suc d) * 2 = 2 ^ (26 - d)"
  proof -
    have "26 - d = Suc (26 - Suc d)" using d by simp
    then show ?thesis by (simp add: power_Suc)
  qed
  moreover have "downsweep_loop (int d - 1) (int (2 ^ 26)) (2 ^ (26 - d)) (down_level d xs)
          = Inr (fold down_level (rev [0..<d]) (down_level d xs))"
    using d Suc.prems by (intro Suc.IH) simp_all
  ultimately show ?case
    by (subst downsweep_loop.simps) (simp add: thenr_def Suc.prems(1))
qed

text \<open>The levels below the top one, started with \<open>v\<close> added to the root of the left half:
  \<open>v\<close> is handed down to every cell of the left half.\<close>

lemma down_sweep_seeded:
  fixes Z W :: "'a::comm_monoid_add list"
  assumes lenZ: "length Z = 2 ^ Suc K" and lenW: "length W = 2 ^ Suc K"
    and seed: "\<And>i. i < 2 ^ Suc K \<Longrightarrow> Z ! i = W ! i + (if i = 2 ^ K - 1 then v else 0)"
    and "d \<le> K" "j < 2 ^ Suc K"
  shows "down_sweep d K Z ! j
           = down_sweep d K W ! j + (if j < 2 ^ K \<and> 2 ^ d dvd Suc j then v else 0)"
  using assms(4,5)
proof (induction "K - d" arbitrary: d j)
  case 0
  then have d: "d = K" by simp
  have "(j < 2 ^ K \<and> 2 ^ K dvd Suc j) \<longleftrightarrow> j = 2 ^ K - 1"
  proof
    assume a: "j < 2 ^ K \<and> 2 ^ K dvd Suc j"
    then have "2 ^ K \<le> Suc j" by (intro dvd_imp_le) simp_all
    with a show "j = 2 ^ K - 1" by linarith
  next
    assume j: "j = 2 ^ K - 1"
    have "1 \<le> (2::nat) ^ K" by simp
    with j have "Suc j = 2 ^ K" by simp
    then show "j < 2 ^ K \<and> 2 ^ K dvd Suc j" by simp
  qed
  then show ?case
    using seed [OF "0.prems"(2)] by (simp add: d)
next
  case (Suc k)
  then have dK: "d < K" and k: "k = K - Suc d" by simp_all
  let ?Z = "down_sweep (Suc d) K Z"
  let ?W = "down_sweep (Suc d) K W"
  have IH: "?Z ! i = ?W ! i + (if i < 2 ^ K \<and> 2 ^ Suc d dvd Suc i then v else 0)"
    if "i < 2 ^ Suc K" for i
    using k dK that by (intro Suc.hyps) simp_all
  have lenZ': "length ?Z = 2 ^ Suc K" by (simp add: lenZ)
  have lenW': "length ?W = 2 ^ Suc K" by (simp add: lenW)
  have stepZ: "down_sweep d K Z = down_level d ?Z"
    using dK by (rule down_sweep_step)
  have stepW: "down_sweep d K W = down_level d ?W"
    using dK by (rule down_sweep_step)
  define m where "m = j div 2 ^ Suc d"
  have lo: "m * 2 ^ Suc d \<le> j" and hi: "j < Suc m * 2 ^ Suc d"
    unfolding m_def by (rule node_bounds)+
  have Kdvd: "2 ^ Suc d dvd (2::nat) ^ Suc K" using dK by (intro le_imp_power_dvd) simp
  have inside: "Suc m * 2 ^ Suc d \<le> 2 ^ Suc K"
    using Kdvd lo Suc.prems(2) by (rule node_inside)
  have r: "rightIdx d m < 2 ^ Suc K" using rightIdx_lt [of d m] inside by simp
  have l: "leftIdx d m < 2 ^ Suc K" using leftIdx_less [of d m] r by simp
  have half: "rightIdx d m < 2 ^ K \<longleftrightarrow> leftIdx d m < 2 ^ K"
  proof
    assume "rightIdx d m < 2 ^ K"
    with leftIdx_less [of d m] show "leftIdx d m < 2 ^ K" by simp
  next
    assume a: "leftIdx d m < 2 ^ K"
    have "2 ^ Suc d dvd (2::nat) ^ K" using dK by (intro le_imp_power_dvd) simp
    then have "Suc m * 2 ^ Suc d \<le> 2 ^ K"
      using leftIdx_ge [of m d] a by (rule node_inside)
    with rightIdx_lt [of d m] show "rightIdx d m < 2 ^ K" by simp
  qed
  have Zr: "?Z ! rightIdx d m = ?W ! rightIdx d m + (if rightIdx d m < 2 ^ K then v else 0)"
    using IH [OF r] rightIdx_aligned [of d m] by simp
  have Zl: "?Z ! leftIdx d m = ?W ! leftIdx d m"
    using IH [OF l] leftIdx_not_aligned [of d m] by simp
  show ?case
  proof (cases "2 ^ Suc d dvd Suc j")
    case True
    then have j: "j = rightIdx d m" using lo hi by (rule rightIdx_unique)
    have al: "2 ^ d dvd Suc j" using True by (rule pow_dvd_Suc)
    have "down_level d ?Z ! j = ?Z ! rightIdx d m + ?Z ! leftIdx d m"
      unfolding j using r lenZ' by (simp add: down_level_nth rightIdx_aligned rightIdx_minus)
    moreover have "down_level d ?W ! j = ?W ! rightIdx d m + ?W ! leftIdx d m"
      unfolding j using r lenW' by (simp add: down_level_nth rightIdx_aligned rightIdx_minus)
    ultimately show ?thesis
      unfolding stepZ stepW using al by (simp add: Zr Zl j add_ac)
  next
    case False
    show ?thesis
    proof (cases "2 ^ d dvd Suc j")
      case True
      with False have j: "j = leftIdx d m" using lo hi by (intro leftIdx_unique)
      have "down_level d ?Z ! j = ?Z ! rightIdx d m"
        unfolding j using l lenZ'
        by (simp add: down_level_nth leftIdx_not_aligned leftIdx_half_aligned leftIdx_plus)
      moreover have "down_level d ?W ! j = ?W ! rightIdx d m"
        unfolding j using l lenW'
        by (simp add: down_level_nth leftIdx_not_aligned leftIdx_half_aligned leftIdx_plus)
      ultimately show ?thesis
        unfolding stepZ stepW using True half by (simp add: Zr j)
    next
      case nd: False
      have "down_level d ?Z ! j = ?Z ! j"
        using Suc.prems(2) lenZ' False nd by (simp add: down_level_nth)
      moreover have "down_level d ?W ! j = ?W ! j"
        using Suc.prems(2) lenW' False nd by (simp add: down_level_nth)
      ultimately show ?thesis
        unfolding stepZ stepW using IH [OF Suc.prems(2)] False nd by simp
    qed
  qed
qed

text \<open>The top level of the downsweep done twice leaves the old value of the left root in
  the left root, where once it leaves the seed 0.\<close>

lemma double_top:
  fixes Y :: "'a::comm_monoid_add list"
  assumes len: "length Y = 2 ^ Suc K" and Yr: "Y ! rightIdx K 0 = 0" and i: "i < 2 ^ Suc K"
  shows "down_level K (down_level K Y) ! i
           = down_level K Y ! i + (if i = leftIdx K 0 then Y ! leftIdx K 0 else 0)"
proof -
  let ?W = "down_level K Y"
  have r: "rightIdx K 0 < 2 ^ Suc K" using rightIdx_lt [of K 0] by simp
  have l: "leftIdx K 0 < 2 ^ Suc K" using leftIdx_less [of K 0] r by simp
  have lr: "rightIdx K 0 \<noteq> leftIdx K 0" using leftIdx_less [of K 0] by simp
  have Wl: "?W ! leftIdx K 0 = 0"
    using l len
    by (simp add: down_level_nth leftIdx_not_aligned leftIdx_half_aligned leftIdx_plus Yr)
  have Wr: "?W ! rightIdx K 0 = Y ! leftIdx K 0"
    using r len
    by (simp add: down_level_nth rightIdx_aligned rightIdx_minus Yr)
  have lo: "0 * 2 ^ Suc K \<le> i" and hi: "i < Suc 0 * 2 ^ Suc K" using i by simp_all
  show ?thesis
  proof (cases "2 ^ Suc K dvd Suc i")
    case True
    then have j: "i = rightIdx K 0" using lo hi by (rule rightIdx_unique)
    have "down_level K ?W ! i = ?W ! rightIdx K 0 + ?W ! leftIdx K 0"
      unfolding j using r len by (simp add: down_level_nth rightIdx_aligned rightIdx_minus)
    then show ?thesis using lr by (simp add: Wl j)
  next
    case False
    show ?thesis
    proof (cases "2 ^ K dvd Suc i")
      case True
      with False have j: "i = leftIdx K 0" using lo hi by (intro leftIdx_unique)
      have "down_level K ?W ! i = ?W ! rightIdx K 0"
        unfolding j using l len
        by (simp add: down_level_nth leftIdx_not_aligned leftIdx_half_aligned leftIdx_plus)
      then show ?thesis by (simp add: Wr Wl j)
    next
      case nd: False
      have "i \<noteq> leftIdx K 0" using nd leftIdx_half_aligned [of K 0] by auto
      moreover have "down_level K ?W ! i = ?W ! i"
        using i len False nd by (simp add: down_level_nth)
      ultimately show ?thesis by simp
    qed
  qed
qed

lemma down_sweep_Suc_top: "down_sweep 0 (Suc K) Y = down_sweep 0 K (down_level K Y)"
  by (simp add: down_sweep_def)

lemma wrapped_sweeps_nth:
  fixes xs :: "'a::comm_monoid_add list"
  assumes len: "length xs = 2 ^ Suc K" and n: "2 ^ K \<le> n" and j: "j < 2 ^ Suc K"
  shows "down_sweep 0 K (down_level K (down_level K ((up_sweep (Suc K) n xs)[2 ^ Suc K - Suc 0 := 0]))) ! j
           = sweeps (Suc K) n xs ! j + (if j < 2 ^ K then seg xs 0 (2 ^ K) else 0)"
proof -
  let ?Y = "(up_sweep (Suc K) n xs)[2 ^ Suc K - Suc 0 := 0]"
  let ?W = "down_level K ?Y"
  let ?Z = "down_level K ?W"
  have r0: "rightIdx K 0 = 2 ^ Suc K - Suc 0" by (simp add: rightIdx_def)
  have l0: "leftIdx K 0 = 2 ^ K - 1" by (simp add: leftIdx_def)
  have lenY: "length ?Y = 2 ^ Suc K" by (simp add: len)
  have root: "?Y ! rightIdx K 0 = 0" unfolding r0 by (simp add: len)
  have l: "leftIdx K 0 < length xs"
    using leftIdx_less [of K 0] rightIdx_lt [of K 0] by (simp add: len)
  have lr: "leftIdx K 0 \<noteq> 2 ^ Suc K - Suc 0"
    using leftIdx_less [of K 0] by (simp add: r0 [symmetric])
  have Sl: "Suc (leftIdx K 0) = 2 ^ K" using Suc_leftIdx [of K 0] by simp
  have "?Y ! leftIdx K 0 = up_sweep (Suc K) n xs ! leftIdx K 0"
    using lr by simp
  also have "\<dots> = (if leftIdx K 0 \<le> n then seg xs (Suc (leftIdx K 0) - 2 ^ K) (Suc (leftIdx K 0))
                      else xs ! leftIdx K 0)"
  proof (rule up_sweep_nth [OF l, of K])
    show "K \<le> Suc K" by simp
    show "2 ^ K dvd Suc (leftIdx K 0)" by (rule leftIdx_half_aligned)
    show "K = Suc K \<or> \<not> 2 ^ Suc K dvd Suc (leftIdx K 0)"
      using leftIdx_not_aligned [of K 0] by simp
  qed
  also have "\<dots> = seg xs 0 (2 ^ K)"
  proof -
    have "leftIdx K 0 \<le> n" using n Sl by linarith
    then show ?thesis by (simp add: Sl)
  qed
  finally have v: "?Y ! leftIdx K 0 = seg xs 0 (2 ^ K)" .
  have seed: "?Z ! i = ?W ! i + (if i = 2 ^ K - 1 then seg xs 0 (2 ^ K) else 0)"
    if "i < 2 ^ Suc K" for i
    using double_top [OF lenY root that, unfolded v] unfolding l0 .
  have "down_sweep 0 K ?Z ! j
          = down_sweep 0 K ?W ! j + (if j < 2 ^ K \<and> 2 ^ 0 dvd Suc j then seg xs 0 (2 ^ K) else 0)"
    using _ _ seed _ j by (rule down_sweep_seeded) (simp_all add: len)
  moreover have "down_sweep 0 K ?W = sweeps (Suc K) n xs"
    by (simp only: sweeps_def down_sweep_Suc_top)
  ultimately show ?thesis by simp
qed

lemma ilog2ceil_26:
  assumes "2 ^ 25 < n" "n \<le> 2 ^ 26"
  shows "ilog2ceil (int n) = 26"
proof -
  from assms(2) have "int n \<le> 2 ^ 26" by simp
  then have "ilog2ceil (int n) \<le> 26" by (rule ilog2ceil_least)
  moreover have "\<not> ilog2ceil (int n) \<le> 25"
  proof
    assume "ilog2ceil (int n) \<le> 25"
    then have "(2::int) ^ ilog2ceil (int n) \<le> 2 ^ 25" by (intro power_increasing) simp_all
    moreover have "int n \<le> 2 ^ ilog2ceil (int n)" by (rule ilog2ceil_bound)
    moreover have "(2::int) ^ 25 < int n" using assms(1) by simp
    ultimately show False by linarith
  qed
  ultimately show ?thesis by simp
qed

lemma downsweep_loop_top:
  assumes len: "length Y = 2 ^ 26"
  shows "downsweep_loop (int 26 - 1) (int (2 ^ 26)) 1 Y
           = Inr (down_sweep 0 25 (down_level 25 (down_level 25 Y)))"
proof -
  have len': "length Y = 2 ^ Suc 25" using len by simp
  have P: "int (2 ^ 26) = int (length Y)" using len by simp
  have blocks: "fullBlocksPerGrid (Suc 0) = Suc 0"
    by (simp add: fullBlocksPerGrid_def blockSize_def)
  have top: "launch 1 (kernDownsweep 25 (int (length Y))) Y
               = Inr (down_level 25 (down_level 25 Y))"
    using len' by (rule launch_kernDownsweep_top)
  have low: "downsweep_loop (int 25 - 1) (int (2 ^ 26)) (2 ^ (26 - 25))
               (down_level 25 (down_level 25 Y))
             = Inr (fold down_level (rev [0..<25]) (down_level 25 (down_level 25 Y)))"
    by (rule downsweep_loop_fold_low) (simp_all add: len)
  have "downsweep_loop (int 26 - 1) (int (2 ^ 26)) 1 Y
      = thenr (launch (fullBlocksPerGrid 1) (kernDownsweep (nat (int 26 - 1)) (int (2 ^ 26))) Y)
          (\<lambda>dev_data. downsweep_loop (int 26 - 1 - 1) (int (2 ^ 26)) (1 * 2) dev_data)"
    by (subst downsweep_loop.simps) simp
  also have "\<dots> = downsweep_loop (int 25 - 1) (int (2 ^ 26)) (2 ^ (26 - 25))
                      (down_level 25 (down_level 25 Y))"
    using top by (simp add: blocks thenr_def len)
  finally show ?thesis
    using low by (simp add: down_sweep_def)
qed

lemma sweep_block_top:
  assumes len: "length buf = 2 ^ 26" and n: "2 ^ 25 < n" "n < 2 ^ 26 - 1"
  shows "thenr (cudaMemset0 buf (int n) (size_bytes (int (2 ^ 26) - int n))) (\<lambda>dev_data.
         thenr (upsweep_loop (ilog2ceil (int (2 ^ 26))) 0 (int n) (2 ^ 26) dev_data)
           (\<lambda>(neededThreads, dev_data).
         thenr (cudaMemset0 dev_data (int (2 ^ 26) - 1) (size_bytes 1)) (\<lambda>dev_data.
         thenr (downsweep_loop (int (ilog2ceil (int (2 ^ 26))) - 1)
                  (int (2 ^ 26)) neededThreads dev_data) k)))
       = k (down_sweep 0 25 (down_level 25 (down_level 25
              ((up_sweep 26 n (padded (2 ^ 26) (take n buf)))[2 ^ 26 - Suc 0 := 0]))))"
proof -
  let ?P = "(2::nat) ^ 26"
  let ?xs = "padded ?P (take n buf)"
  have nP: "n \<le> ?P" using n(2) by simp
  have P62: "?P < 2 ^ 62" by simp
  have lenxs: "length ?xs = ?P" using nP len by (simp add: padded_def)
  have pos: "0 < length (up_sweep 26 n ?xs)" by (simp only: length_up_sweep lenxs) simp
  have "cudaMemset0 buf (int n) (size_bytes (int ?P - int n)) = Inr ?xs"
    unfolding size_bytes_diff [OF nP P62]
    using nP len cudaMemset0_cells [of n "?P - n" buf]
    by (simp add: padded_def)
  moreover have "ilog2ceil (int ?P) = 26" by (rule ilog2ceil_int_power)
  moreover have "upsweep_loop 26 0 (int n) ?P ?xs = Inr (1, up_sweep 26 n ?xs)"
    using upsweep_loop_fold_top [OF lenxs n(2), of 0] by (simp add: up_sweep_def)
  moreover have "cudaMemset0 (up_sweep 26 n ?xs) (int ?P - 1) (size_bytes 1)
      = Inr ((up_sweep 26 n ?xs)[?P - Suc 0 := 0])"
    using cudaMemset0_one [OF pos] lenxs by (simp add: size_bytes_1)
  moreover have "downsweep_loop (int 26 - 1) (int ?P) 1 ((up_sweep 26 n ?xs)[?P - Suc 0 := 0])
      = Inr (down_sweep 0 25 (down_level 25 (down_level 25 ((up_sweep 26 n ?xs)[?P - Suc 0 := 0]))))"
    using lenxs by (intro downsweep_loop_top) simp
  ultimately show ?thesis
    by (simp add: thenr_def del: of_nat_power)
qed

text \<open>\<open>scan\<close> for \<open>2 ^ 25 < n < 2 ^ 26 - 1\<close>: every cell of the left half of the buffer is too
  large by the sum of the first \<open>2 ^ 25\<close> cells.\<close>

lemma scan_wrapped:
  assumes n: "length idata = n" and lo: "2 ^ 25 < n" and hi: "n < 2 ^ 26 - 1"
  shows "scan junk (int n) idata
           = Inr (map (\<lambda>i. sum_list (take i idata)
                            + (if i < 2 ^ 25 then sum_list (take (2 ^ 25) idata) else 0)) [0..<n])"
proof -
  let ?P = "(2::nat) ^ 26"
  have nP: "n \<le> ?P" using hi by simp
  have L: "ilog2ceil (int n) = 26" using lo nP by (rule ilog2ceil_26)
  define dev0 where "dev0 = cudaMalloc (junk 0) ?P"
  have len0: "length dev0 = ?P" by (simp add: dev0_def cudaMalloc_def)
  have n62: "n < 2 ^ 62" using hi by simp
  define buf where "buf = take n idata @ drop n dev0"
  have copy: "cudaMemcpy dev0 idata (size_bytes (int n)) = Inr buf"
    unfolding size_bytes_nat [OF n62] buf_def
    using nP n by (intro cudaMemcpy_cells) (simp_all add: len0)
  have lenb: "length buf = ?P" using nP n by (simp add: buf_def len0)
  have tk: "take n buf = idata" using n by (simp add: buf_def)
  let ?xs = "padded ?P idata"
  let ?out = "down_sweep 0 25 (down_level 25 (down_level 25 ((up_sweep 26 n ?xs)[?P - Suc 0 := 0])))"
  have lenxs: "length ?xs = ?P" using nP n by (simp add: length_padded)
  have lenout: "length ?out = ?P" using lenxs by simp
  have out: "cudaMemcpy (replicate n 0) ?out (size_bytes (int n)) = Inr (take n ?out)"
    unfolding size_bytes_nat [OF n62]
    using nP lenout cudaMemcpy_cells [of n "replicate n 0" ?out] by simp
  have "scan junk (int n) idata = thenr (Inr buf) (\<lambda>dev_data.
         thenr (cudaMemset0 dev_data (int n) (size_bytes (int ?P - int n))) (\<lambda>dev_data.
         thenr (upsweep_loop (ilog2ceil (int ?P)) 0 (int n) ?P dev_data)
           (\<lambda>(neededThreads, dev_data).
         thenr (cudaMemset0 dev_data (int ?P - 1) (size_bytes 1)) (\<lambda>dev_data.
         thenr (downsweep_loop (int (ilog2ceil (int ?P)) - 1)
                  (int ?P) neededThreads dev_data) (\<lambda>dev_data.
         cudaMemcpy (replicate (nat (int n)) 0) dev_data (size_bytes (int n)))))))"
    unfolding scan_def scan_body_def Let_def L dev0_def [symmetric] copy ..
  also have "\<dots> = cudaMemcpy (replicate (nat (int n)) 0)
                      (down_sweep 0 25 (down_level 25 (down_level 25
                         ((up_sweep 26 n (padded ?P (take n buf)))[?P - Suc 0 := 0]))))
                      (size_bytes (int n))"
    unfolding thenr_def sum.case using sweep_block_top [OF lenb lo hi] unfolding thenr_def .
  also have "\<dots> = Inr (take n ?out)"
    using out by (simp add: tk)
  also have "take n ?out = map (\<lambda>i. sum_list (take i idata)
                            + (if i < 2 ^ 25 then sum_list (take (2 ^ 25) idata) else 0)) [0..<n]"
  proof (rule nth_equalityI)
    show "length (take n ?out) = length (map (\<lambda>i. sum_list (take i idata)
                            + (if i < 2 ^ 25 then sum_list (take (2 ^ 25) idata) else 0)) [0..<n])"
      using nP lenout by simp
    fix i assume "i < length (take n ?out)"
    then have i: "i < n" by simp
    have S: "Suc 25 = 26" by simp
    have iP: "i < 2 ^ Suc 25" using i nP by simp
    have lenS: "length ?xs = 2 ^ Suc 25" using lenxs by simp
    have n25: "2 ^ 25 \<le> n" using lo by simp
    have "?out ! i = sweeps 26 n ?xs ! i + (if i < 2 ^ 25 then seg ?xs 0 (2 ^ 25) else 0)"
      using wrapped_sweeps_nth [OF lenS n25 iP] unfolding S .
    moreover have "sweeps 26 n ?xs ! i = sum_list (take i idata)"
      using sweeps_prefix [of idata 26 i] n nP i by simp
    moreover have "seg ?xs 0 (2 ^ 25) = sum_list (take (2 ^ 25) idata)"
      using n n25 nP by (intro seg_padded) simp_all
    ultimately show "take n ?out ! i = map (\<lambda>i. sum_list (take i idata)
                            + (if i < 2 ^ 25 then sum_list (take (2 ^ 25) idata) else 0)) [0..<n] ! i"
      using i by simp
  qed
  finally show ?thesis .
qed

text \<open>The scatter destinations for two inputs of 9 and 10 non-zero cells.\<close>

lemma ilog2ceil_9: "ilog2ceil 9 = 4"
proof -
  have "ilog2ceil 9 \<le> 4" by (rule ilog2ceil_least) simp
  moreover have "\<not> ilog2ceil 9 \<le> 3"
  proof
    assume "ilog2ceil 9 \<le> 3"
    then have "(2::int) ^ ilog2ceil 9 \<le> 2 ^ 3" by (intro power_increasing) simp_all
    with ilog2ceil_bound [of 9] show False by simp
  qed
  ultimately show ?thesis by simp
qed

lemma ilog2ceil_10: "ilog2ceil 10 = 4"
proof -
  have "ilog2ceil 10 \<le> 4" by (rule ilog2ceil_least) simp
  moreover have "\<not> ilog2ceil 10 \<le> 3"
  proof
    assume "ilog2ceil 10 \<le> 3"
    then have "(2::int) ^ ilog2ceil 10 \<le> 2 ^ 3" by (intro power_increasing) simp_all
    with ilog2ceil_bound [of 10] show False by simp
  qed
  ultimately show ?thesis by simp
qed

lemma dest_nine:
  "t < 16 \<Longrightarrow> dest [1, 2, 3, 4, 5, 6, 7, 8, 9] t
     = [0, 1, 2, 3, 4, 5, 6, 7, 8, 9, 9, 9, 8, 8, 8, 8] ! t"
proof -
  have "map (dest [1, 2, 3, 4, 5, 6, 7, 8, 9]) [0..<16]
          = [0, 1, 2, 3, 4, 5, 6, 7, 8, 9, 9, 9, 8, 8, 8, 8]"
    by (simp add: dest_def kept_before_def upt_conv_Cons cut_at.simps power_Suc)
  moreover assume "t < 16"
  ultimately show ?thesis
    by (metis (no_types) add_0 diff_zero length_upt nth_map nth_upt)
qed

lemma dest_ten:
  "t < 16 \<Longrightarrow> dest [1, 2, 3, 4, 5, 6, 7, 8, 9, 10] t
     = [0, 1, 2, 3, 4, 5, 6, 7, 8, 9, 10, 10, 8, 8, 8, 8] ! t"
proof -
  have "map (dest [1, 2, 3, 4, 5, 6, 7, 8, 9, 10]) [0..<16]
          = [0, 1, 2, 3, 4, 5, 6, 7, 8, 9, 10, 10, 8, 8, 8, 8]"
    by (simp add: dest_def kept_before_def upt_conv_Cons cut_at.simps power_Suc)
  moreover assume "t < 16"
  ultimately show ?thesis
    by (metis (no_types) add_0 diff_zero length_upt nth_map nth_upt)
qed

section \<open>Sizes up to \<open>2 ^ 25\<close>\<close>

text \<open>Up to \<open>n = 2 ^ 25\<close> (33554432 cells) no \<open>unsigned\<close> index of any launched thread
  wraps around \<open>2 ^ 32\<close>: a launch has at least \<open>blockSize = 128\<close> threads, and at the top
  level of a buffer of \<open>2 ^ 25\<close> cells the thread with index 127 computes
  \<open>rightIdx = 128 * 2 ^ 25 - 1\<close>. Cells are 32-bit words, so every sum below is the sum
  as the machine forms it (modulo \<open>2 ^ 32\<close>).\<close>

lemma prefix_sums_nth: "i < length xs \<Longrightarrow> prefix_sums xs ! i = sum_list (take i xs)"
  by (simp add: prefix_sums_def)

lemma length_prefix_sums [simp]: "length (prefix_sums xs) = length xs"
  by (simp add: prefix_sums_def)

lemma prefix_sums_append:
  "take (length xs) (prefix_sums (xs @ ys)) = prefix_sums xs"
  by (rule nth_equalityI) (simp_all add: prefix_sums_nth)


text \<open>Up to this size \<open>scan(n, x)\<close> returns, and cell \<open>i\<close> of its output (\<open>i < n\<close>) is the
  sum of \<open>x[0..i)\<close>, although \<open>kernUpsweep\<close> is launched with the logical size \<open>n\<close> and
  \<open>kernDownsweep\<close> with the padded size. Where the sum of the signed values fits 32 bits,
  the signed value of the cell is that sum.\<close>

lemma scan_prefix_sums:
  assumes "length x = n" and "n \<le> 2 ^ 25"
  shows "\<exists>out. scan junk (int n) x = Inr out \<and> length out = n
           \<and> (\<forall>i<n. out ! i = sum_list (take i x))
           \<and> (\<forall>i<n. - (2 ^ 31) \<le> sum_list (map sint (take i x))
                    \<and> sum_list (map sint (take i x)) < 2 ^ 31
                  \<longrightarrow> sint (out ! i) = sum_list (map sint (take i x)))"
proof (intro exI conjI)
  show "scan junk (int n) x = Inr (prefix_sums x)"
    using assms by (rule scan_result)
  show "length (prefix_sums x) = n"
    using assms(1) by simp
  show "\<forall>i<n. prefix_sums x ! i = sum_list (take i x)"
    using assms(1) by (simp add: prefix_sums_nth)
  show "\<forall>i<n. - (2 ^ 31) \<le> sum_list (map sint (take i x))
                \<and> sum_list (map sint (take i x)) < 2 ^ 31
              \<longrightarrow> sint (prefix_sums x ! i) = sum_list (map sint (take i x))"
    using assms(1) by (auto simp add: prefix_sums_nth sint_sum_list)
qed


text \<open>Appending zeros to \<open>x\<close>, up to this size, does not change the first \<open>n\<close> cells of the
  output, whatever freshly allocated device memory holds.\<close>

lemma scan_padding_invariance:
  assumes "length x = n" and "n \<le> m" and "m \<le> 2 ^ 25"
  shows "\<exists>out out'. scan junk (int n) x = Inr out
           \<and> scan junk' (int m) (x @ replicate (m - n) 0) = Inr out'
           \<and> take n out' = out"
proof (intro exI conjI)
  show "scan junk (int n) x = Inr (prefix_sums x)"
    using assms by (intro scan_result) simp_all
  show "scan junk' (int m) (x @ replicate (m - n) 0) = Inr (prefix_sums (x @ replicate (m - n) 0))"
    using assms by (intro scan_result) simp_all
  show "take n (prefix_sums (x @ replicate (m - n) 0)) = prefix_sums x"
    using assms(1) prefix_sums_append [of x] by simp
qed


text \<open>\<open>compact\<close> up to this size. Over the logical cells \<open>i < n\<close>: \<open>bool_data[i]\<close> is 1
  exactly where \<open>x[i]\<close> is non-zero, the scatter destination \<open>indices_data[i]\<close> is the
  number of non-zero cells before \<open>i\<close>; it never decreases, it grows by exactly 1 over a
  kept cell, and it is strictly larger at every cell after a kept one. The first \<open>size\<close>
  cells written to \<open>odata\<close> are the first \<open>size\<close> non-zero cells of \<open>x\<close>, in their order
  (\<open>size\<close> the returned count).\<close>

lemma compact_keeps_order:
  assumes "length x = n" and "n \<le> 2 ^ 25"
  shows "\<exists>dev_idata bools indices out size.
           compact_indices junk (int n) x = Inr (dev_idata, bools, indices)
         \<and> compact junk (int n) x = Inr (out, size)
         \<and> (\<forall>i<n. bools ! i = (if x ! i \<noteq> 0 then 1 else 0))
         \<and> (\<forall>i<n. sint (indices ! i) = int (length (filter (\<lambda>v. v \<noteq> 0) (take i x))))
         \<and> (\<forall>i<n. \<forall>j<n. i \<le> j \<longrightarrow> sint (indices ! i) \<le> sint (indices ! j))
         \<and> (\<forall>i<n. \<forall>j<n. i < j \<longrightarrow> x ! i \<noteq> 0 \<longrightarrow> sint (indices ! i) < sint (indices ! j))
         \<and> (\<forall>i. Suc i < n \<longrightarrow>
               sint (indices ! Suc i) = sint (indices ! i) + (if x ! i \<noteq> 0 then 1 else 0))
         \<and> nat (sint size) \<le> length (filter (\<lambda>v. v \<noteq> 0) x)
         \<and> take (nat (sint size)) out = take (nat (sint size)) (filter (\<lambda>v. v \<noteq> 0) x)"
proof -
  define L where "L = ilog2ceil (int n)"
  define ind where "ind = sweeps L n (padded (2 ^ L) (map to_bool x))"
  have nP: "n \<le> 2 ^ L" unfolding L_def using assms(2) by (rule padded_size)
  have idx: "sint (ind ! i) = int (kept_before x i)" if "i < n" for i
    unfolding ind_def L_def using assms that by (rule indices_logical)
  have size: "sint (of_nat (dest x (2 ^ L - 1)) :: i32) = int (dest x (2 ^ L - 1))"
    using assms by (intro sint_dest) simp
  have 1: "compact_indices junk (int n) x
             = Inr (dev_input junk (2 ^ L) x, map to_bool (dev_input junk (2 ^ L) x), ind)"
    unfolding ind_def L_def using assms by (rule compact_indices_result)
  have 2: "compact junk (int n) x
             = Inr (take n (dev_output junk (2 ^ L) x), of_nat (dest x (2 ^ L - 1)))"
    unfolding L_def using assms by (rule compact_result)
  have 3: "\<forall>i<n. map to_bool (dev_input junk (2 ^ L) x) ! i = (if x ! i \<noteq> 0 then 1 else 0)"
    using assms(1) nP
    by (simp add: length_dev_input) (simp add: dev_input_def nth_append to_bool_def)
  have 4: "\<forall>i<n. sint (ind ! i) = int (length (filter (\<lambda>v. v \<noteq> 0) (take i x)))"
    by (simp add: idx kept_before_def)
  have 5: "\<forall>i<n. \<forall>j<n. i \<le> j \<longrightarrow> sint (ind ! i) \<le> sint (ind ! j)"
    by (simp add: idx kept_before_mono)
  have 6: "\<forall>i<n. \<forall>j<n. i < j \<longrightarrow> x ! i \<noteq> 0 \<longrightarrow> sint (ind ! i) < sint (ind ! j)"
  proof (intro allI impI)
    fix i j assume "i < n" "j < n" "i < j" "x ! i \<noteq> 0"
    then have "kept_before x (Suc i) = kept_before x i + 1"
      using assms(1) by (simp add: kept_before_Suc)
    moreover have "kept_before x (Suc i) \<le> kept_before x j"
      using \<open>i < j\<close> by (intro kept_before_mono) simp
    ultimately show "sint (ind ! i) < sint (ind ! j)"
      using \<open>i < n\<close> \<open>j < n\<close> by (simp add: idx)
  qed
  have 7: "\<forall>i. Suc i < n \<longrightarrow> sint (ind ! Suc i) = sint (ind ! i) + (if x ! i \<noteq> 0 then 1 else 0)"
    using assms(1) by (simp add: idx kept_before_Suc)
  have 8: "nat (sint (of_nat (dest x (2 ^ L - 1)) :: i32)) \<le> length (filter (\<lambda>v. v \<noteq> 0) x)"
    unfolding size using dest_le_total [of x] by simp
  have 9: "take (nat (sint (of_nat (dest x (2 ^ L - 1)) :: i32))) (take n (dev_output junk (2 ^ L) x))
             = take (nat (sint (of_nat (dest x (2 ^ L - 1)) :: i32))) (filter (\<lambda>v. v \<noteq> 0) x)"
    unfolding size using take_dev_output [of x "2 ^ L" junk] nP assms(1) by simp
  show ?thesis
    by (intro exI conjI) (fact 1, fact 2, fact 3, fact 4, fact 5, fact 6, fact 7, fact 8, fact 9)
qed


text \<open>Up to this size the content of freshly allocated device memory (\<open>junk\<close>) has no
  influence on the output of \<open>scan\<close>, on the count that \<open>compact\<close> returns and on the
  first \<open>size\<close> cells it writes to \<open>odata\<close>.\<close>

lemma results_independent_of_junk:
  assumes "length x = n" and "n \<le> 2 ^ 25"
  shows "scan junk (int n) x = scan junk' (int n) x
       \<and> (\<exists>out out' size. compact junk (int n) x = Inr (out, size)
             \<and> compact junk' (int n) x = Inr (out', size)
             \<and> take (nat (sint size)) out = take (nat (sint size)) out')"
proof -
  define L where "L = ilog2ceil (int n)"
  have nP: "n \<le> 2 ^ L" unfolding L_def using assms(2) by (rule padded_size)
  have size: "sint (of_nat (dest x (2 ^ L - 1)) :: i32) = int (dest x (2 ^ L - 1))"
    using assms by (intro sint_dest) simp
  have 1: "scan junk (int n) x = scan junk' (int n) x"
    using assms by (simp add: scan_result)
  have 2: "compact junk (int n) x
             = Inr (take n (dev_output junk (2 ^ L) x), of_nat (dest x (2 ^ L - 1)))"
    unfolding L_def using assms by (rule compact_result)
  have 3: "compact junk' (int n) x
             = Inr (take n (dev_output junk' (2 ^ L) x), of_nat (dest x (2 ^ L - 1)))"
    unfolding L_def using assms by (rule compact_result)
  have "take (dest x (2 ^ L - 1)) (take n (dev_output junk (2 ^ L) x))
          = take (dest x (2 ^ L - 1)) (take n (dev_output junk' (2 ^ L) x))"
    using take_dev_output [of x "2 ^ L" junk] take_dev_output [of x "2 ^ L" junk'] nP assms(1)
    by simp
  then have 4: "take (nat (sint (of_nat (dest x (2 ^ L - 1)) :: i32))) (take n (dev_output junk (2 ^ L) x))
      = take (nat (sint (of_nat (dest x (2 ^ L - 1)) :: i32))) (take n (dev_output junk' (2 ^ L) x))"
    unfolding size by simp
  show ?thesis
    by (intro exI conjI) (fact 1, fact 2, fact 3, fact 4)
qed

section \<open>The claims\<close>







text \<open>Claim C2. The claim: the count \<open>compact\<close> returns is the number of non-zero cells
  of \<open>x[0..n)\<close>, recovered as \<open>index[P-1] + mask[P-1]\<close>. The source returns
  \<open>indices_data[smallestPOTGreater - 1]\<close> alone. When \<open>n\<close> is a power of two (no padding)
  this is the number of non-zero cells among the first \<open>n - 1\<close>: the last cell is not
  counted.\<close>

theorem compact_count_power_of_two:
  assumes "length x = 2 ^ k" and "k \<le> 25"
  shows "\<exists>out size. compact junk (int (2 ^ k)) x = Inr (out, size)
           \<and> size = of_nat (length (filter (\<lambda>v. v \<noteq> 0) (butlast x)))
           \<and> sint size = int (length (filter (\<lambda>v. v \<noteq> 0) (butlast x)))"
proof -
  have b: "(2::nat) ^ k \<le> 2 ^ 25" using assms(2) by (intro power_increasing) simp_all
  have d: "dest x (2 ^ k - 1) = length (filter (\<lambda>v. v \<noteq> 0) (butlast x))"
    using assms(1) by (rule dest_last_pow)
  have "compact junk (int (2 ^ k)) x
          = Inr (take (2 ^ k) (dev_output junk (2 ^ k) x), of_nat (dest x (2 ^ k - 1)))"
    using compact_result [OF assms(1) b, of junk] by (simp only: ilog2ceil_pow)
  then have c: "compact junk (int (2 ^ k)) x
          = Inr (take (2 ^ k) (dev_output junk (2 ^ k) x),
                 of_nat (length (filter (\<lambda>v. v \<noteq> 0) (butlast x))))"
    unfolding d .
  have "sint (of_nat (dest x (2 ^ k - 1)) :: i32) = int (dest x (2 ^ k - 1))"
    using assms(1) b by (intro sint_dest) simp
  then have s: "sint (of_nat (length (filter (\<lambda>v. v \<noteq> 0) (butlast x))) :: i32)
                  = int (length (filter (\<lambda>v. v \<noteq> 0) (butlast x)))"
    unfolding d .
  from c s show ?thesis by blast
qed

theorem compact_count_power_of_two_witness:
  "\<exists>out. compact (\<lambda>b i. 7) 1 [5] = Inr (out, 0)"
proof -
  have "length [5 :: i32] = 2 ^ 0" and "(0::nat) \<le> 25"
    by simp_all
  from compact_count_power_of_two [OF this, of "\<lambda>b i. 7"] show ?thesis
    by auto
qed

text \<open>Claim C4. The claim: for \<open>x = [5]\<close>, \<open>scan\<close> gives \<open>[0]\<close> and \<open>compact\<close> gives
  \<open>([5], 1)\<close>. The source gives \<open>[0]\<close> and \<open>([5], 0)\<close>: the output cell is right, the
  returned count is \<open>indices_data[0]\<close>, the exclusive scan value 0.\<close>

theorem single_cell_input:
  "\<forall>junk. scan junk 1 [5] = Inr [0] \<and> compact junk 1 [5] = Inr ([5], 0)"
proof (intro allI conjI)
  fix junk :: "nat \<Rightarrow> nat \<Rightarrow> i32"
  have len: "length [5 :: i32] = 1" and b: "(1::nat) \<le> 2 ^ 25"
    by simp_all
  have L: "ilog2ceil 1 = 0"
    by (simp add: ilog2ceil_le1)
  show "scan junk 1 [5] = Inr [0]"
    using scan_result [OF len b, of junk] by (simp add: prefix_sums_def)
  have "take (length [5 :: i32]) (dev_output junk 1 [5]) = [5]"
    by (rule dev_output_all_kept) simp_all
  moreover have "dest [5] (2 ^ 0 - 1) = length (filter (\<lambda>v. v \<noteq> 0) (butlast [5 :: i32]))"
    by (rule dest_last_pow) simp
  ultimately show "compact junk 1 [5] = Inr ([5], 0)"
    using compact_result [OF len b, of junk] by (simp add: L)
qed

text \<open>Claim C5. For the empty input, \<open>scan(0, [])\<close> returns the empty sequence and
  \<open>compact(0, [])\<close> the empty sequence with count 0, every access being inside its
  buffer. The padded size is 1 here, from \<open>ilog2ceil 0 = 0\<close> as the spec has it.\<close>

theorem empty_input:
  "\<forall>junk. scan junk 0 [] = Inr [] \<and> compact junk 0 [] = Inr ([], 0)"
proof (intro allI conjI)
  fix junk :: "nat \<Rightarrow> nat \<Rightarrow> i32"
  have len: "length ([] :: i32 list) = 0" and b: "(0::nat) \<le> 2 ^ 25"
    by simp_all
  show "scan junk 0 [] = Inr []"
    using scan_result [OF len b, of junk] by (simp add: prefix_sums_def)
  have "dest [] (2 ^ ilog2ceil (int 0) - 1) = 0"
    using dest_le_length [of "[]"] by simp
  then show "compact junk 0 [] = Inr ([], 0)"
    using compact_result [OF len b, of junk] by simp
qed

text \<open>Claim C9. The claim: if all cells of \<open>x\<close> are non-zero, \<open>compact(n, x)\<close> returns
  \<open>(x, n)\<close>. When \<open>n\<close> is a power of two the source writes \<open>x\<close> to \<open>odata\<close> and returns
  \<open>n - 1\<close>.\<close>

theorem compact_all_kept_power_of_two:
  assumes "length x = 2 ^ k" and "k \<le> 25" and "\<forall>v\<in>set x. v \<noteq> 0"
  shows "compact junk (int (2 ^ k)) x = Inr (x, of_nat (2 ^ k - 1))"
proof -
  have b: "(2::nat) ^ k \<le> 2 ^ 25" using assms(2) by (intro power_increasing) simp_all
  have "\<forall>v\<in>set (butlast x). v \<noteq> 0"
    using assms(3) by (meson in_set_butlastD)
  then have "filter (\<lambda>v. v \<noteq> 0) (butlast x) = butlast x"
    by (simp add: filter_id_conv)
  then have d: "dest x (2 ^ k - 1) = 2 ^ k - 1"
    using dest_last_pow [OF assms(1)] assms(1) by simp
  have t: "take (2 ^ k) (dev_output junk (2 ^ k) x) = x"
    using dev_output_all_kept [of x "2 ^ k" junk] assms(1,3) by simp
  have "compact junk (int (2 ^ k)) x
          = Inr (take (2 ^ k) (dev_output junk (2 ^ k) x), of_nat (dest x (2 ^ k - 1)))"
    using compact_result [OF assms(1) b, of junk] by (simp only: ilog2ceil_pow)
  then show ?thesis unfolding d t .
qed

theorem compact_all_kept_power_of_two_witness:
  "compact (\<lambda>b i. 7) 4 [1, 2, 3, 4] = Inr ([1, 2, 3, 4], 3)"
proof -
  have "length [1, 2, 3, 4 :: i32] = 2 ^ 2" and "(2::nat) \<le> 25"
    and "\<forall>v\<in>set [1, 2, 3, 4 :: i32]. v \<noteq> 0"
    by simp_all
  from compact_all_kept_power_of_two [OF this, of "\<lambda>b i. 7"] show ?thesis
    by simp
qed



text \<open>Claim C8. The claim: for a negative \<open>n\<close>, \<open>scan\<close> and \<open>compact\<close> reject the request
  before any work begins, with no allocation. The source has no check of \<open>n\<close> and no
  way to report one (\<open>scan\<close> returns \<open>void\<close>, the CUDA status codes are dropped).
  Whatever padded size \<open>P\<close> the first line obtains from \<open>ilog2ceil\<close> for a negative
  \<open>int n\<close>, the buffers of \<open>P\<close> cells are allocated, and the first runtime call that
  uses \<open>n\<close>, the \<open>cudaMemcpy\<close> of \<open>n * sizeof(int)\<close> bytes from \<open>idata\<close>, asks for
  \<open>2 ^ 62 + n\<close> cells of the device buffer of \<open>P\<close> cells: the value
  \<open>Inl (OutOfRange (2 ^ 62 + n) P)\<close>, undefined behaviour of the source, in \<open>scan\<close> and
  in \<open>compact\<close> alike. With the padded size of the spec, \<open>P\<close> is 1.\<close>

theorem negative_size_not_rejected:
  assumes "- (2 ^ 31) \<le> n" and "n < 0" and "P < 2 ^ 31"
  shows "scan_body P junk n idata = Inl (OutOfRange (nat (2 ^ 62 + n)) P)
       \<and> compact_body P junk n idata = Inl (OutOfRange (nat (2 ^ 62 + n)) P)
       \<and> length (cudaMalloc (junk 0) P) = P"
  using negative_size_body [OF assms] by simp

theorem negative_size_not_rejected_witness:
  "scan_body 4 (filled 0) (- 3) [] = Inl (OutOfRange 4611686018427387901 4)
     \<and> compact_body 4 (filled 0) (- 3) [] = Inl (OutOfRange 4611686018427387901 4)"
proof -
  have "- (2 ^ 31) \<le> (- 3 :: int)" and "(- 3 :: int) < 0" and "(4 :: nat) < 2 ^ 31"
    by simp_all
  from negative_size_not_rejected [OF this, of "filled 0" "[]"] show ?thesis
    by simp
qed

theorem negative_size_counterexample:
  "scan (filled 0) (- 1) [] = Inl (OutOfRange 4611686018427387903 1)
     \<and> compact (filled 0) (- 1) [] = Inl (OutOfRange 4611686018427387903 1)
     \<and> cudaMalloc (filled 0 0) (2 ^ ilog2ceil (- 1)) = [0]"
proof -
  have "- (2 ^ 31) \<le> (- 1 :: int)" and "(- 1 :: int) < 0"
    by simp_all
  from negative_size [OF this, of "filled 0" "[]"] show ?thesis
    by (simp add: ilog2ceil_le1 cudaMalloc_def filled_def)
qed


end
